theory Spec2Isabelle
  imports Main "HOL-Library.Char_ord" "HOL-Library.List_Lexorder" "HOL-Library.AList"
begin

section \<open>Text primitives of the Python runtime\<close>

text \<open>
  The blocklist text is a Python \<open>str\<close>. A \<^typ>\<open>string\<close> models it with one
  \<^typ>\<open>char\<close> per code point, which covers text whose code points lie below 256.
  Within that range the whitespace characters (\<open>str.strip\<close>, \<open>\s\<close>), the line
  boundaries of \<open>str.splitlines\<close>, the decimal digits (\<open>\d\<close>) and
  \<open>str.lower\<close> are exactly the ones written out below. Strings compare by code
  point, lexicographically, as \<open>sorted\<close> does in Python.
\<close>

abbreviation LF :: char where "LF \<equiv> CHR 0x0A"
abbreviation CR :: char where "CR \<equiv> CHR 0x0D"

definition is_space :: "char \<Rightarrow> bool" where
  "is_space c = (c \<in> set [CHR 0x09, CHR 0x0A, CHR 0x0B, CHR 0x0C, CHR 0x0D,
                            CHR 0x1C, CHR 0x1D, CHR 0x1E, CHR 0x1F, CHR 0x20, CHR 0x85, CHR 0xA0])"

definition is_linebreak :: "char \<Rightarrow> bool" where
  "is_linebreak c = (c \<in> set [CHR 0x0A, CHR 0x0B, CHR 0x0C, CHR 0x0D,
                                CHR 0x1C, CHR 0x1D, CHR 0x1E, CHR 0x85])"

definition is_digit :: "char \<Rightarrow> bool" where
  "is_digit c = (CHR ''0'' \<le> c \<and> c \<le> CHR ''9'')"

definition is_alnum :: "char \<Rightarrow> bool" where
  "is_alnum c = ((CHR ''a'' \<le> c \<and> c \<le> CHR ''z'') \<or> (CHR ''A'' \<le> c \<and> c \<le> CHR ''Z'')
                 \<or> (CHR ''0'' \<le> c \<and> c \<le> CHR ''9''))"

definition is_alnum_hyphen :: "char \<Rightarrow> bool" where
  "is_alnum_hyphen c = (is_alnum c \<or> c = CHR ''-'')"

definition strip :: "string \<Rightarrow> string" where
  "strip s = rev (dropWhile is_space (rev (dropWhile is_space s)))"

definition startswith :: "string \<Rightarrow> string \<Rightarrow> bool" where
  "startswith p s = (take (length p) s = p)"

definition endswith :: "string \<Rightarrow> string \<Rightarrow> bool" where
  "endswith p s = (length p \<le> length s \<and> drop (length s - length p) s = p)"

text \<open>\<open>k in s\<close> for strings: \<open>k\<close> occurs in \<open>s\<close> as a contiguous substring.\<close>

fun contains :: "string \<Rightarrow> string \<Rightarrow> bool" where
  "contains k [] = (k = [])"
| "contains k (c # cs) = (startswith k (c # cs) \<or> contains k cs)"

definition lower_char :: "char \<Rightarrow> char" where
  "lower_char c =
     (if (CHR ''A'' \<le> c \<and> c \<le> CHR ''Z'') \<or> (CHR 0xC0 \<le> c \<and> c \<le> CHR 0xDE \<and> c \<noteq> CHR 0xD7)
      then char_of (of_char c + (32::nat)) else c)"

definition lower :: "string \<Rightarrow> string" where
  "lower s = map lower_char s"

text \<open>\<open>s[i:-1]\<close>: from index \<open>i\<close> up to, not including, the last character.\<close>

definition slice_to_last :: "nat \<Rightarrow> string \<Rightarrow> string" where
  "slice_to_last i s = take (length s - 1 - i) (drop i s)"

text \<open>
  \<open>str.splitlines()\<close>: the text is cut at every line boundary; \<open>\r\n\<close> is one
  boundary; a last segment is produced only when it is not empty. The first argument
  holds the characters of the current segment, newest first.
\<close>

fun splitlines_from :: "string \<Rightarrow> string \<Rightarrow> string list" where
  "splitlines_from cur [] = (if cur = [] then [] else [rev cur])"
| "splitlines_from cur (c # cs) =
     (if c = CR then
        (case cs of
           d # ds \<Rightarrow> if d = LF then rev cur # splitlines_from [] ds
                     else rev cur # splitlines_from [] cs
         | [] \<Rightarrow> rev cur # splitlines_from [] cs)
      else if is_linebreak c then rev cur # splitlines_from [] cs
      else splitlines_from (c # cur) cs)"

definition splitlines :: "string \<Rightarrow> string list" where
  "splitlines s = splitlines_from [] s"

text \<open>\<open>'\n'.join(xs)\<close>\<close>

fun join_lines :: "string list \<Rightarrow> string" where
  "join_lines [] = []"
| "join_lines [x] = x"
| "join_lines (x # y # ys) = x @ LF # join_lines (y # ys)"

text \<open>\<open>str(n)\<close> for a non-negative integer: its decimal digits.\<close>

function str_nat :: "nat \<Rightarrow> string" where
  "str_nat n = (if n < 10 then [char_of (48 + n)]
                else str_nat (n div 10) @ [char_of (48 + n mod 10)])"
  by pat_completeness auto
termination
  by (relation "measure id") auto

text \<open>
  The timestamp \<open>datetime.now().strftime('%Y-%m-%d %H:%M:%S')\<close>: the clock is an
  input of the model, the rendering is the zero-padded decimal one.
\<close>

record datetime =
  dt_year :: nat
  dt_month :: nat
  dt_day :: nat
  dt_hour :: nat
  dt_minute :: nat
  dt_second :: nat

definition zfill :: "nat \<Rightarrow> string \<Rightarrow> string" where
  "zfill w s = replicate (w - length s) (CHR ''0'') @ s"

definition strftime :: "datetime \<Rightarrow> string" where
  "strftime t = zfill 4 (str_nat (dt_year t)) @ ''-'' @ zfill 2 (str_nat (dt_month t)) @ ''-''
                @ zfill 2 (str_nat (dt_day t)) @ '' '' @ zfill 2 (str_nat (dt_hour t)) @ '':''
                @ zfill 2 (str_nat (dt_minute t)) @ '':'' @ zfill 2 (str_nat (dt_second t))"

section \<open>Regular expressions as the \<open>re\<close> module runs them\<close>

text \<open>
  The three patterns of the program use character classes, concatenation, an optional
  part, greedy and lazy repetition, bounded repetition, one capture group and the
  end anchor. \<open>bt r s\<close> lists, in the order in which the backtracking matcher tries
  them, every way in which \<open>r\<close> can match at the front of \<open>s\<close>: the text left
  over and the text captured by the group, if any. \<open>Eos\<close> is \<open>$\<close> without the
  MULTILINE flag: the end of the text, or the position before a line feed that ends
  the text. The repetition bodies of the program's patterns always consume a
  character; an iteration that consumes nothing ends the repetition.
\<close>

datatype regex =
    Cls "char \<Rightarrow> bool"
  | Cat regex regex
  | Opt regex
  | Star regex
  | LazyStar regex
  | Upto nat regex
  | Grp regex
  | Eos

fun rsize :: "regex \<Rightarrow> nat" where
  "rsize (Cls p) = 0"
| "rsize (Cat r1 r2) = Suc (rsize r1 + rsize r2)"
| "rsize (Opt r) = Suc (rsize r)"
| "rsize (Star r) = Suc (rsize r)"
| "rsize (LazyStar r) = Suc (rsize r)"
| "rsize (Upto n r) = Suc (rsize r + n)"
| "rsize (Grp r) = Suc (rsize r)"
| "rsize Eos = 0"

definition later_group :: "string option \<Rightarrow> string \<times> string option \<Rightarrow> string \<times> string option" where
  "later_group g1 x = (fst x, case snd x of None \<Rightarrow> g1 | Some g \<Rightarrow> Some g)"

function bt :: "regex \<Rightarrow> string \<Rightarrow> (string \<times> string option) list" where
  "bt (Cls p) s = (case s of [] \<Rightarrow> [] | c # cs \<Rightarrow> if p c then [(cs, None)] else [])"
| "bt (Cat r1 r2) s = concat (map (\<lambda>x. map (later_group (snd x)) (bt r2 (fst x))) (bt r1 s))"
| "bt (Opt r) s = bt r s @ [(s, None)]"
| "bt (Star r) s =
     concat (map (\<lambda>x. if length (fst x) < length s
                       then map (later_group (snd x)) (bt (Star r) (fst x)) else []) (bt r s))
     @ [(s, None)]"
| "bt (LazyStar r) s =
     (s, None) #
     concat (map (\<lambda>x. if length (fst x) < length s
                       then map (later_group (snd x)) (bt (LazyStar r) (fst x)) else []) (bt r s))"
| "bt (Upto n r) s =
     (case n of 0 \<Rightarrow> []
      | Suc m \<Rightarrow> concat (map (\<lambda>x. map (later_group (snd x)) (bt (Upto m r) (fst x))) (bt r s)))
     @ [(s, None)]"
| "bt (Grp r) s = map (\<lambda>x. (fst x, Some (take (length s - length (fst x)) s))) (bt r s)"
| "bt Eos s = (if s = [] \<or> s = [LF] then [(s, None)] else [])"
  by pat_completeness auto
termination
  by (relation "measures [\<lambda>(r, s). rsize r, \<lambda>(r, s). length s]") auto

text \<open>\<open>pattern.match(s)\<close>: the first way to match at the start of \<open>s\<close>, if there is one.\<close>

definition re_match :: "regex \<Rightarrow> string \<Rightarrow> (string \<times> string option) option" where
  "re_match r s = (case bt r s of [] \<Rightarrow> None | x # _ \<Rightarrow> Some x)"

text \<open>\<open>match.group(1)\<close> of a successful match\<close>

definition group1 :: "regex \<Rightarrow> string \<Rightarrow> string option" where
  "group1 r s = (case re_match r s of None \<Rightarrow> None | Some x \<Rightarrow> snd x)"

text \<open>
  \<open>re.sub(r, '', s)\<close>: scanning from the left, every match is deleted and the scan goes
  on behind it; where there is no match, or only an empty one, the character is kept.
\<close>

function re_sub_empty :: "regex \<Rightarrow> string \<Rightarrow> string" where
  "re_sub_empty r [] = []"
| "re_sub_empty r (c # cs) =
     (case re_match r (c # cs) of
        None \<Rightarrow> c # re_sub_empty r cs
      | Some x \<Rightarrow> if length (fst x) < length (c # cs) then re_sub_empty r (fst x)
                  else c # re_sub_empty r cs)"
  by pat_completeness auto
termination
  by (relation "measure (\<lambda>(r, s). length s)") auto

definition Plus :: "regex \<Rightarrow> regex" where
  "Plus r = Cat r (Star r)"

definition LazyPlus :: "regex \<Rightarrow> regex" where
  "LazyPlus r = Cat r (LazyStar r)"

definition Lit :: "char \<Rightarrow> regex" where
  "Lit c = Cls (\<lambda>x. x = c)"

text \<open>\<open>r{1,3}\<close>\<close>

definition OneToThree :: "regex \<Rightarrow> regex" where
  "OneToThree r = Cat r (Upto 2 r)"

section \<open>The patterns of the program\<close>

text \<open>
  \<^verbatim>\<open>^(?:[a-zA-Z0-9](?:[a-zA-Z0-9-]{0,61}[a-zA-Z0-9])?\.)+[a-zA-Z0-9][a-zA-Z0-9-]{0,61}[a-zA-Z0-9]$\<close>
  (with \<open>match\<close>, which starts at the first character, the leading \<open>^\<close> always holds)
\<close>

definition LABEL_DOT :: regex where
  "LABEL_DOT = Cat (Cls is_alnum)
                 (Cat (Opt (Cat (Upto 61 (Cls is_alnum_hyphen)) (Cls is_alnum))) (Lit (CHR ''.'')))"

definition DOMAIN_PATTERN :: regex where
  "DOMAIN_PATTERN =
     Cat (Plus LABEL_DOT)
       (Cat (Cls is_alnum) (Cat (Upto 61 (Cls is_alnum_hyphen)) (Cat (Cls is_alnum) Eos)))"

text \<open>\<^verbatim>\<open>^\|\|(.+?)\^(?:\$.*)?$\<close>\<close>

definition not_LF :: "char \<Rightarrow> bool" where
  "not_LF c = (c \<noteq> LF)"

definition ADBLOCK_PATTERN :: regex where
  "ADBLOCK_PATTERN =
     Cat (Lit (CHR ''|'')) (Cat (Lit (CHR ''|''))
       (Cat (Grp (LazyPlus (Cls not_LF)))
         (Cat (Lit (CHR ''^''))
           (Cat (Opt (Cat (Lit (CHR ''$'')) (Star (Cls not_LF)))) Eos))))"

text \<open>\<^verbatim>\<open>^\s*\d{1,3}\.\d{1,3}\.\d{1,3}\.\d{1,3}\s+(\S+)$\<close>\<close>

definition not_space :: "char \<Rightarrow> bool" where
  "not_space c = (\<not> is_space c)"

definition IP_DOMAIN_PATTERN :: regex where
  "IP_DOMAIN_PATTERN =
     Cat (Star (Cls is_space))
       (Cat (OneToThree (Cls is_digit)) (Cat (Lit (CHR ''.''))
         (Cat (OneToThree (Cls is_digit)) (Cat (Lit (CHR ''.''))
           (Cat (OneToThree (Cls is_digit)) (Cat (Lit (CHR ''.''))
             (Cat (OneToThree (Cls is_digit))
               (Cat (Plus (Cls is_space)) (Cat (Grp (Plus (Cls not_space))) Eos)))))))))"

text \<open>\<^verbatim>\<open>(#|!).*$\<close>, the inline comment\<close>

definition is_hash_or_bang :: "char \<Rightarrow> bool" where
  "is_hash_or_bang c = (c = CHR ''#'' \<or> c = CHR ''!'')"

definition INLINE_COMMENT :: regex where
  "INLINE_COMMENT = Cat (Cls is_hash_or_bang) (Cat (Star (Cls not_LF)) Eos)"

section \<open>Domain validation and extraction\<close>

definition is_valid_domain :: "string \<Rightarrow> bool" where
  "is_valid_domain domain =
     (if domain = [] \<or> domain = ''localhost'' \<or> endswith ''.local'' domain then False
      else if length domain > 253 then False
      else let domain' = (if startswith ''*.'' domain then drop 2 domain else domain)
           in re_match DOMAIN_PATTERN domain' \<noteq> None)"

definition extract_domain_from_line :: "string \<Rightarrow> string option" where
  "extract_domain_from_line line0 =
     (let line = strip line0 in
      if line = [] \<or> startswith ''#'' line \<or> startswith ''!'' line then None
      else let line = strip (re_sub_empty INLINE_COMMENT line) in
        if line = [] then None
        else case re_match IP_DOMAIN_PATTERN line of
          Some m \<Rightarrow> snd m
        | None \<Rightarrow>
           (case re_match ADBLOCK_PATTERN line of
              Some m \<Rightarrow> snd m
            | None \<Rightarrow>
               if CHR '' '' \<notin> set line \<and> CHR ''/'' \<notin> set line \<and> CHR ''?'' \<notin> set line
                  \<and> CHR ''!'' \<notin> set line \<and> CHR ''#'' \<notin> set line
               then (if startswith ''*.'' line then Some line else Some line)
               else None))"

section \<open>Normalisation of one blocklist\<close>

datatype py_exception = AttributeError | KeyError

text \<open>
  The argument \<open>content\<close> is \<open>bytes\<close> (the caller's case), already a \<open>str\<close>, or
  some other object, on which \<open>content.splitlines()\<close> raises \<open>AttributeError\<close>.
\<close>

datatype content = Bytes string | Str string | NonText

record pass_state =
  domains :: "string set"
  domain_formats :: "string \<rightharpoonup> string"
  metadata :: "string list"
  current_group :: "string option"
  groups :: "(string \<times> string list) list"

definition initial_state :: pass_state where
  "initial_state = \<lparr>domains = {}, domain_formats = Map.empty, metadata = [],
                     current_group = None, groups = []\<rparr>"

subsection \<open>First pass: the dominant format of the first 200 lines\<close>

record format_counts =
  adblock_count :: nat
  host_count :: nat
  plain_count :: nat
  total_lines :: nat

definition count_line :: "string \<Rightarrow> format_counts \<Rightarrow> format_counts" where
  "count_line line0 k =
     (let line = strip line0 in
      if line = [] \<or> startswith ''#'' line \<or> startswith ''!'' line then k
      else let k = k\<lparr>total_lines := total_lines k + 1\<rparr> in
        if re_match ADBLOCK_PATTERN line \<noteq> None then k\<lparr>adblock_count := adblock_count k + 1\<rparr>
        else if re_match IP_DOMAIN_PATTERN line \<noteq> None then k\<lparr>host_count := host_count k + 1\<rparr>
        else if CHR '' '' \<notin> set line \<and> CHR ''/'' \<notin> set line
             then k\<lparr>plain_count := plain_count k + 1\<rparr>
        else k)"

definition analyze_format :: "string list \<Rightarrow> format_counts" where
  "analyze_format lines =
     foldl (\<lambda>k line. count_line line k)
       \<lparr>adblock_count = 0, host_count = 0, plain_count = 0, total_lines = 0\<rparr> (take 200 lines)"

text \<open>
  The result is the pair (\<open>adblock_style\<close>, \<open>preserve_format\<close>). The quotient
  \<open>adblock_count / total_lines\<close> exceeds one half exactly when twice the count exceeds
  the total.
\<close>

definition primary_format :: "string list \<Rightarrow> bool \<Rightarrow> bool \<times> bool" where
  "primary_format lines preserve_format =
     (let k = analyze_format lines in
      if total_lines k > 0 then
        if 2 * adblock_count k > total_lines k then (True, True)
        else if 2 * host_count k > total_lines k then (False, True)
        else (False, preserve_format)
      else (False, preserve_format))"

subsection \<open>Second pass: metadata, groups, domains\<close>

definition metadata_keywords :: "string list" where
  "metadata_keywords = [''title:'', ''last modified:'', ''version:'', ''blocked:'',
                        ''updated:'', ''count:'', ''description:'']"

definition is_group_label :: "string \<Rightarrow> bool" where
  "is_group_label line = ((startswith ''#['' line \<and> endswith '']'' line)
                          \<or> (startswith ''# ['' line \<and> endswith '']'' line))"

definition group_name :: "string \<Rightarrow> string" where
  "group_name line = (if startswith ''# ['' line then strip (slice_to_last 3 line)
                      else strip (slice_to_last 2 line))"

definition comment_line :: "bool \<Rightarrow> bool \<Rightarrow> string \<Rightarrow> pass_state \<Rightarrow> pass_state" where
  "comment_line preserve_metadata preserve_grouping line0 st =
     (let line = (if startswith ''!'' line0 then ''#'' @ drop 1 line0 else line0);
          st = (if preserve_metadata \<and> list_ex (\<lambda>keyword. contains keyword (lower line)) metadata_keywords
                then st\<lparr>metadata := metadata st @ [line]\<rparr> else st)
      in if preserve_grouping \<and> is_group_label line
         then st\<lparr>current_group := Some (group_name line),
                 groups := AList.update (group_name line) [] (groups st)\<rparr>
         else st)"

text \<open>\<open>if preserve_grouping and current_group\<close>: neither \<open>None\<close> nor the empty name.\<close>

definition open_group :: "bool \<Rightarrow> pass_state \<Rightarrow> string option" where
  "open_group preserve_grouping st =
     (case current_group st of
        None \<Rightarrow> None
      | Some g \<Rightarrow> if preserve_grouping \<and> g \<noteq> [] then Some g else None)"

definition add_domain :: "bool \<Rightarrow> bool \<Rightarrow> string \<Rightarrow> string \<Rightarrow> pass_state \<Rightarrow> py_exception + pass_state" where
  "add_domain preserve_grouping preserve_format line domain st =
     (let st = st\<lparr>domains := insert domain (domains st)\<rparr>;
          st = (if preserve_format then st\<lparr>domain_formats := (domain_formats st)(domain \<mapsto> line)\<rparr> else st)
      in case open_group preserve_grouping st of
           None \<Rightarrow> Inr st
         | Some g \<Rightarrow>
            (case map_of (groups st) g of
               None \<Rightarrow> Inl KeyError
             | Some members \<Rightarrow> Inr (st\<lparr>groups := AList.update g (members @ [domain]) (groups st)\<rparr>)))"

definition process_line :: "bool \<Rightarrow> bool \<Rightarrow> bool \<Rightarrow> string \<Rightarrow> pass_state \<Rightarrow> py_exception + pass_state" where
  "process_line preserve_metadata preserve_grouping preserve_format line0 st =
     (let line = strip line0 in
      if startswith ''#'' line \<or> startswith ''!'' line
      then Inr (comment_line preserve_metadata preserve_grouping line st)
      else if line = [] then Inr st
      else case extract_domain_from_line line of
             None \<Rightarrow> Inr st
           | Some domain \<Rightarrow>
               if domain \<noteq> [] \<and> is_valid_domain domain
               then add_domain preserve_grouping preserve_format line domain st
               else Inr st)"

fun second_pass :: "bool \<Rightarrow> bool \<Rightarrow> bool \<Rightarrow> string list \<Rightarrow> pass_state \<Rightarrow> py_exception + pass_state" where
  "second_pass pm pg pf [] st = Inr st"
| "second_pass pm pg pf (line # lines) st =
     (case process_line pm pg pf line st of
        Inl e \<Rightarrow> Inl e
      | Inr st' \<Rightarrow> second_pass pm pg pf lines st')"

subsection \<open>Serialisation\<close>

definition render :: "bool \<Rightarrow> pass_state \<Rightarrow> string \<Rightarrow> string" where
  "render preserve_format st domain =
     (case (if preserve_format then domain_formats st domain else None) of
        Some line \<Rightarrow> line
      | None \<Rightarrow> ''0.0.0.0 '' @ domain)"

definition render_plain :: "bool \<Rightarrow> bool \<Rightarrow> pass_state \<Rightarrow> string \<Rightarrow> string" where
  "render_plain preserve_format adblock_style st domain =
     (case (if preserve_format then domain_formats st domain else None) of
        Some line \<Rightarrow> line
      | None \<Rightarrow> if adblock_style then ''||'' @ domain @ ''^'' else ''0.0.0.0 '' @ domain)"

definition group_section :: "bool \<Rightarrow> pass_state \<Rightarrow> string \<times> string list \<Rightarrow> string list" where
  "group_section preserve_format st g =
     (let valid_domains = filter (\<lambda>d. d \<in> domains st) (snd g) in
      if valid_domains \<noteq> []
      then [''#['' @ fst g @ '']''] @ map (render preserve_format st) (sort valid_domains) @ [[]]
      else [])"

definition all_grouped :: "pass_state \<Rightarrow> string set" where
  "all_grouped st = (\<Union>g \<in> set (groups st). set (filter (\<lambda>d. d \<in> domains st) (snd g)))"

definition header_lines :: "string \<Rightarrow> bool \<Rightarrow> pass_state \<Rightarrow> string list" where
  "header_lines now preserve_metadata st =
     (if preserve_metadata \<and> metadata st \<noteq> [] then metadata st
      else [''# Pi-hole optimized blocklist'', ''# Last updated: '' @ now])
     @ [''# Total domains: '' @ str_nat (card (domains st)), []]"

definition body_lines :: "bool \<Rightarrow> bool \<Rightarrow> bool \<Rightarrow> pass_state \<Rightarrow> string list" where
  "body_lines preserve_grouping preserve_format adblock_style st =
     (if preserve_grouping \<and> groups st \<noteq> [] then
        concat (map (group_section preserve_format st) (groups st))
        @ (let ungrouped = domains st - all_grouped st in
           if ungrouped \<noteq> {}
           then ''#[ungrouped]'' # map (render preserve_format st) (sorted_list_of_set ungrouped)
           else [])
      else map (render_plain preserve_format adblock_style st) (sorted_list_of_set (domains st)))"

subsection \<open>The whole function\<close>

text \<open>
  \<open>decode\<close> stands for \<open>bytes.decode('utf-8', errors='ignore')\<close> of the runtime and
  \<open>now\<close> for the clock. \<open>optimize_body\<close> is the \<open>try\<close> block, \<open>optimize_blocklist\<close>
  the function with its \<open>except Exception\<close> handler.
\<close>

definition optimize_text ::
  "datetime \<Rightarrow> string \<Rightarrow> bool \<Rightarrow> bool \<Rightarrow> bool \<Rightarrow> py_exception + (string \<times> string set)" where
  "optimize_text now text preserve_metadata preserve_grouping preserve_format0 =
     (let lines = splitlines text;
          (adblock_style, preserve_format) = primary_format lines preserve_format0
      in case second_pass preserve_metadata preserve_grouping preserve_format lines initial_state of
           Inl e \<Rightarrow> Inl e
         | Inr st \<Rightarrow>
             Inr (join_lines (header_lines (strftime now) preserve_metadata st
                              @ body_lines preserve_grouping preserve_format adblock_style st),
                  domains st))"

definition optimize_body ::
  "(string \<Rightarrow> string) \<Rightarrow> datetime \<Rightarrow> content \<Rightarrow> bool \<Rightarrow> bool \<Rightarrow> bool
     \<Rightarrow> py_exception + (string \<times> string set)" where
  "optimize_body decode now content preserve_metadata preserve_grouping preserve_format =
     (case content of
        Bytes b \<Rightarrow> optimize_text now (decode b) preserve_metadata preserve_grouping preserve_format
      | Str s \<Rightarrow> optimize_text now s preserve_metadata preserve_grouping preserve_format
      | NonText \<Rightarrow> Inl AttributeError)"

definition optimize_blocklist ::
  "(string \<Rightarrow> string) \<Rightarrow> datetime \<Rightarrow> content \<Rightarrow> bool \<Rightarrow> bool \<Rightarrow> bool \<Rightarrow> string \<times> string set" where
  "optimize_blocklist decode now content preserve_metadata preserve_grouping preserve_format =
     (case optimize_body decode now content preserve_metadata preserve_grouping preserve_format of
        Inl e \<Rightarrow> (''# Error processing blocklist'', {})
      | Inr result \<Rightarrow> result)"

section \<open>Aggregation into production lists\<close>

text \<open>
  \<open>self.categories\<close> is given by the list of its elements in the order in which the
  dictionary \<open>category_domains\<close> holds them; \<open>self.domain_stats\<close> by its items: the
  name of a list, its category and its domains.
\<close>

fun collect_domains ::
  "(string \<times> string \<times> string set) list \<Rightarrow> string set \<times> (string \<times> string set) list
     \<Rightarrow> py_exception + (string set \<times> (string \<times> string set) list)" where
  "collect_domains [] acc = Inr acc"
| "collect_domains ((name, category, doms) # rest) (all_domains, category_domains) =
     (case map_of category_domains category of
        None \<Rightarrow> Inl KeyError
      | Some ds \<Rightarrow> collect_domains rest
                    (all_domains \<union> doms, AList.update category (ds \<union> doms) category_domains))"

definition duplicate_sum :: "(string \<times> string set) list \<Rightarrow> nat" where
  "duplicate_sum category_domains =
     foldl (\<lambda>n (category1, domains1).
              foldl (\<lambda>n (category2, domains2).
                       if category1 \<noteq> category2 then n + card (domains1 \<inter> domains2) else n)
                n category_domains)
       0 category_domains"

record production_stats =
  all_domains :: "string set"
  category_domains :: "(string \<times> string set) list"
  duplicate_domains :: nat
  unique_domains :: nat

definition create_production_lists ::
  "string list \<Rightarrow> (string \<times> string \<times> string set) list \<Rightarrow> py_exception + production_stats" where
  "create_production_lists categories domain_stats =
     (case collect_domains domain_stats ({}, map (\<lambda>category. (category, {})) categories) of
        Inl e \<Rightarrow> Inl e
      | Inr (alld, cd) \<Rightarrow>
          Inr \<lparr>all_domains = alld, category_domains = cd,
               duplicate_domains = duplicate_sum cd div 2, unique_domains = card alld\<rparr>)"

section \<open>Notions used to state the properties\<close>

text \<open>
  The domain that one line of the input adds to the domain set in the second pass, if
  any: the line is not blank, not a comment, a token is extracted from it and the
  token is valid.
\<close>

definition line_domain :: "string \<Rightarrow> string option" where
  "line_domain line0 =
     (let line = strip line0 in
      if startswith ''#'' line \<or> startswith ''!'' line \<or> line = [] then None
      else case extract_domain_from_line line of
             None \<Rightarrow> None
           | Some domain \<Rightarrow> if domain \<noteq> [] \<and> is_valid_domain domain then Some domain else None)"

text \<open>The group that a line opens in the second pass, if it is a group label.\<close>

definition opens_group :: "string \<Rightarrow> string option" where
  "opens_group line0 =
     (let line = strip line0 in
      if startswith ''#'' line \<or> startswith ''!'' line then
        let line = (if startswith ''!'' line then ''#'' @ drop 1 line else line)
        in if is_group_label line then Some (group_name line) else None
      else None)"

text \<open>
  The union set of a category, in the words of the specification: the union of all domain
  sets of the sources whose category is \<open>c\<close>.
\<close>

definition per_category_set :: "(string \<times> string \<times> string set) list \<Rightarrow> string \<Rightarrow> string set" where
  "per_category_set domain_stats c =
     \<Union> (set (map (\<lambda>entry. snd (snd entry)) (filter (\<lambda>entry. fst (snd entry) = c) domain_stats)))"


text \<open>
  The shape of a domain name in the words of the specification. A label has 1 to 63
  characters, the first and the last alphanumeric, all of them alphanumeric or a hyphen.
  The labels of a text are its parts between the dots, as \<open>str.split('.')\<close> gives them.
\<close>

definition label_shape :: "string \<Rightarrow> bool" where
  "label_shape l = (1 \<le> length l \<and> length l \<le> 63 \<and> is_alnum (hd l) \<and> is_alnum (last l)
                    \<and> list_all is_alnum_hyphen l)"

fun split_on :: "char \<Rightarrow> string \<Rightarrow> string list" where
  "split_on c [] = [[]]"
| "split_on c (x # xs) =
     (if x = c then [] # split_on c xs
      else (x # hd (split_on c xs)) # tl (split_on c xs))"

text \<open>
  What the pattern of the program asks for: at least two labels, the last of them with
  at least two characters.
\<close>

definition domain_shape :: "string \<Rightarrow> bool" where
  "domain_shape s =
     (let ls = split_on (CHR ''.'') s
      in 2 \<le> length ls \<and> list_all label_shape (butlast ls)
         \<and> label_shape (last ls) \<and> 2 \<le> length (last ls))"

text \<open>What the specification asks for: one or more labels, all of the same shape.\<close>

definition spec_domain_shape :: "string \<Rightarrow> bool" where
  "spec_domain_shape s = list_all label_shape (split_on (CHR ''.'') s)"

text \<open>The anchor \<open>$\<close> lets one line feed at the end of the text pass.\<close>

definition without_final_LF :: "string \<Rightarrow> string" where
  "without_final_LF s = (if s \<noteq> [] \<and> last s = LF then butlast s else s)"

definition without_wildcard :: "string \<Rightarrow> string" where
  "without_wildcard s = (if startswith ''*.'' s then drop 2 s else s)"

text \<open>The labels \<open>ls\<close> written one after the other, each of them followed by a dot.\<close>

definition dotted :: "string list \<Rightarrow> string" where
  "dotted ls = concat (map (\<lambda>l. l @ ''.'') ls)"

text \<open>
  The sample of the format detection in the words of the specification, with the budget
  that the program uses: the lines among the first 200 of the input that, without the
  surrounding whitespace, are neither blank nor comments. A sampled line is AdBlock-style
  when the AdBlock pattern matches it, and hosts-style when that pattern does not match
  it and the hosts pattern does.
\<close>

definition format_sample :: "string list \<Rightarrow> string list" where
  "format_sample lines =
     filter (\<lambda>l. \<not> (l = [] \<or> startswith ''#'' l \<or> startswith ''!'' l)) (map strip (take 200 lines))"

definition adblock_lines :: "string list \<Rightarrow> string list" where
  "adblock_lines ls = filter (\<lambda>l. re_match ADBLOCK_PATTERN l \<noteq> None) ls"

definition hosts_lines :: "string list \<Rightarrow> string list" where
  "hosts_lines ls =
     filter (\<lambda>l. re_match ADBLOCK_PATTERN l = None \<and> re_match IP_DOMAIN_PATTERN l \<noteq> None) ls"

text \<open>
  The domains of the lines that stand behind a group label and before the next group
  label, in the order of the lines.
\<close>

definition members_behind :: "string list \<Rightarrow> string list" where
  "members_behind post = List.map_filter line_domain (takeWhile (\<lambda>l. opens_group l = None) post)"
section \<open>Properties\<close>

declare bt.simps [simp del]

subsection \<open>How the matcher runs on character classes\<close>

lemma later_group_None [simp]: "later_group None x = x"
  by (cases x) (simp add: later_group_def split: option.splits)

lemma map_later_group_None [simp]: "map (later_group None) xs = xs"
  by (induction xs) simp_all

lemma fst_later_group [simp]: "fst (later_group g x) = fst x"
  by (simp add: later_group_def)

lemma bt_Cls_Nil [simp]: "bt (Cls p) [] = []"
  by (simp add: bt.simps)

lemma bt_Cls_Cons [simp]: "bt (Cls p) (c # cs) = (if p c then [(cs, None)] else [])"
  by (simp add: bt.simps)

lemma bt_Lit_Cons [simp]: "bt (Lit a) (c # cs) = (if c = a then [(cs, None)] else [])"
  by (simp add: Lit_def)

lemma bt_Lit_Nil [simp]: "bt (Lit a) [] = []"
  by (simp add: Lit_def)

lemma bt_Eos [simp]: "bt Eos s = (if s = [] \<or> s = [LF] then [(s, None)] else [])"
  by (simp add: bt.simps)

lemma bt_Opt [simp]: "bt (Opt r) s = bt r s @ [(s, None)]"
  by (simp add: bt.simps)

lemma bt_Cat: "bt (Cat r1 r2) s = concat (map (\<lambda>x. map (later_group (snd x)) (bt r2 (fst x))) (bt r1 s))"
  by (simp add: bt.simps)

lemma bt_Cat_Nil: "bt r1 s = [] \<Longrightarrow> bt (Cat r1 r2) s = []"
  by (simp add: bt_Cat)

lemma bt_Cat_single: "bt r1 s = [(s1, g)] \<Longrightarrow> bt (Cat r1 r2) s = map (later_group g) (bt r2 s1)"
  by (simp add: bt_Cat)

lemma bt_Star_Cls_Nil [simp]: "bt (Star (Cls p)) [] = [([], None)]"
  by (simp add: bt.simps)

lemma bt_Star_Cls_Cons [simp]:
  "bt (Star (Cls p)) (c # cs) = (if p c then bt (Star (Cls p)) cs else []) @ [(c # cs, None)]"
  by (subst bt.simps) simp

lemma bt_LazyStar_Cls_Nil [simp]: "bt (LazyStar (Cls p)) [] = [([], None)]"
  by (simp add: bt.simps)

lemma bt_LazyStar_Cls_Cons [simp]:
  "bt (LazyStar (Cls p)) (c # cs) = (c # cs, None) # (if p c then bt (LazyStar (Cls p)) cs else [])"
  by (subst bt.simps) simp

lemma bt_Upto_0 [simp]: "bt (Upto 0 r) s = [(s, None)]"
  by (simp add: bt.simps)

lemma bt_Upto_Cls_Nil [simp]: "bt (Upto n (Cls p)) [] = [([], None)]"
  by (cases n) (simp_all add: bt.simps)

lemma bt_Upto_Cls_Cons [simp]:
  "bt (Upto (Suc n) (Cls p)) (c # cs) = (if p c then bt (Upto n (Cls p)) cs else []) @ [(c # cs, None)]"
  by (subst bt.simps) simp

lemma bt_Grp: "bt (Grp r) s = map (\<lambda>x. (fst x, Some (take (length s - length (fst x)) s))) (bt r s)"
  by (simp add: bt.simps)

text \<open>what is left over is a suffix of the input\<close>

lemma bt_suffix: "x \<in> set (bt r s) \<Longrightarrow> \<exists>p. s = p @ fst x"
proof (induction r s arbitrary: x rule: bt.induct)
  case (1 p s)
  then show ?case by (cases s) (auto split: if_splits)
next
  case (2 r1 r2 s)
  from "2.prems" obtain y z where y: "y \<in> set (bt r1 s)" and z: "z \<in> set (bt r2 (fst y))"
    and x: "x = later_group (snd y) z"
    by (auto simp: bt_Cat)
  from "2.IH"(1) [OF y] obtain p where p: "s = p @ fst y" by blast
  from "2.IH"(2) [OF y z] obtain q where q: "fst y = q @ fst z" by blast
  from p q x show ?case by auto
next
  case (3 r s)
  from "3.prems" have "x \<in> set (bt r s) \<or> x = (s, None)" by auto
  then show ?case using "3.IH" by (cases x) auto
next
  case (4 r s)
  from "4.prems" consider "x = (s, None)"
    | y z where "y \<in> set (bt r s)" "length (fst y) < length s" "z \<in> set (bt (Star r) (fst y))" "x = later_group (snd y) z"
    by (subst (asm) bt.simps) (auto split: if_splits)
  then show ?case
  proof cases
    case 1 then show ?thesis by simp
  next
    case 2
    from "4.IH"(1) [OF 2(1)] obtain p where p: "s = p @ fst y" by blast
    from "4.IH"(2) [OF 2(1) 2(2) 2(3)] obtain q where q: "fst y = q @ fst z" by blast
    from p q 2(4) show ?thesis by auto
  qed
next
  case (5 r s)
  from "5.prems" consider "x = (s, None)"
    | y z where "y \<in> set (bt r s)" "length (fst y) < length s" "z \<in> set (bt (LazyStar r) (fst y))" "x = later_group (snd y) z"
    by (subst (asm) bt.simps) (auto split: if_splits)
  then show ?case
  proof cases
    case 1 then show ?thesis by simp
  next
    case 2
    from "5.IH"(1) [OF 2(1)] obtain p where p: "s = p @ fst y" by blast
    from "5.IH"(2) [OF 2(1) 2(2) 2(3)] obtain q where q: "fst y = q @ fst z" by blast
    from p q 2(4) show ?thesis by auto
  qed
next
  case (6 n r s)
  show ?case
  proof (cases n)
    case 0
    with "6.prems" show ?thesis by simp
  next
    case (Suc m)
    from "6.prems" Suc consider "x = (s, None)"
      | y z where "y \<in> set (bt r s)" "z \<in> set (bt (Upto m r) (fst y))" "x = later_group (snd y) z"
      by (subst (asm) bt.simps) auto
    then show ?thesis
    proof cases
      case 1 then show ?thesis by simp
    next
      case 2
      from "6.IH"(1) [OF Suc 2(1)] obtain p where p: "s = p @ fst y" by blast
      from "6.IH"(2) [OF Suc 2(1) 2(2)] obtain q where q: "fst y = q @ fst z" by blast
      from p q 2(3) show ?thesis by auto
    qed
  qed
next
  case (7 r s)
  then show ?case by (auto simp: bt_Grp)
next
  case (8 s)
  then show ?case by (auto split: if_splits)
qed

subsection \<open>Captured text and inline comments\<close>

lemma later_group_sound:
  assumes "\<exists>p. s = p @ fst y" and "\<forall>g. snd y = Some g \<longrightarrow> set g \<subseteq> set s"
    and "\<exists>q. fst y = q @ fst z" and "\<forall>g. snd z = Some g \<longrightarrow> set g \<subseteq> set (fst y)"
  shows "\<forall>g. snd (later_group (snd y) z) = Some g \<longrightarrow> set g \<subseteq> set s"
proof (intro allI impI)
  fix g assume g: "snd (later_group (snd y) z) = Some g"
  from assms(1) have sub: "set (fst y) \<subseteq> set s" by auto
  show "set g \<subseteq> set s"
  proof (cases "snd z")
    case None
    with g have "snd y = Some g" by (simp add: later_group_def)
    with assms(2) show ?thesis by blast
  next
    case (Some h)
    with g have "h = g" by (simp add: later_group_def)
    with Some assms(4) sub show ?thesis by blast
  qed
qed

lemma bt_group_subset: "x \<in> set (bt r s) \<Longrightarrow> \<forall>g. snd x = Some g \<longrightarrow> set g \<subseteq> set s"
proof (induction r s arbitrary: x rule: bt.induct)
  case (1 p s)
  then show ?case by (cases s) (auto split: if_splits)
next
  case (2 r1 r2 s)
  from "2.prems" obtain y z where y: "y \<in> set (bt r1 s)" and z: "z \<in> set (bt r2 (fst y))"
    and x: "x = later_group (snd y) z"
    by (auto simp: bt_Cat)
  show ?case unfolding x
    by (rule later_group_sound [OF bt_suffix [OF y] "2.IH"(1) [OF y] bt_suffix [OF z] "2.IH"(2) [OF y z]])
next
  case (3 r s)
  from "3.prems" have "x \<in> set (bt r s) \<or> x = (s, None)" by auto
  then show ?case
  proof
    assume "x \<in> set (bt r s)"
    from "3.IH" [OF this] show ?thesis .
  next
    assume "x = (s, None)"
    then show ?thesis by simp
  qed
next
  case (4 r s)
  from "4.prems" consider "x = (s, None)"
    | y z where "y \<in> set (bt r s)" "length (fst y) < length s" "z \<in> set (bt (Star r) (fst y))" "x = later_group (snd y) z"
    by (subst (asm) bt.simps) (auto split: if_splits)
  then show ?case
  proof cases
    case 1 then show ?thesis by simp
  next
    case 2
    show ?thesis unfolding 2(4)
      by (rule later_group_sound [OF bt_suffix [OF 2(1)] "4.IH"(1) [OF 2(1)] bt_suffix [OF 2(3)]
            "4.IH"(2) [OF 2(1) 2(2) 2(3)]])
  qed
next
  case (5 r s)
  from "5.prems" consider "x = (s, None)"
    | y z where "y \<in> set (bt r s)" "length (fst y) < length s" "z \<in> set (bt (LazyStar r) (fst y))" "x = later_group (snd y) z"
    by (subst (asm) bt.simps) (auto split: if_splits)
  then show ?case
  proof cases
    case 1 then show ?thesis by simp
  next
    case 2
    show ?thesis unfolding 2(4)
      by (rule later_group_sound [OF bt_suffix [OF 2(1)] "5.IH"(1) [OF 2(1)] bt_suffix [OF 2(3)]
            "5.IH"(2) [OF 2(1) 2(2) 2(3)]])
  qed
next
  case (6 n r s)
  show ?case
  proof (cases n)
    case 0
    with "6.prems" show ?thesis by simp
  next
    case (Suc m)
    from "6.prems" Suc consider "x = (s, None)"
      | y z where "y \<in> set (bt r s)" "z \<in> set (bt (Upto m r) (fst y))" "x = later_group (snd y) z"
      by (subst (asm) bt.simps) auto
    then show ?thesis
    proof cases
      case 1 then show ?thesis by simp
    next
      case 2
      show ?thesis unfolding 2(3)
        by (rule later_group_sound [OF bt_suffix [OF 2(1)] "6.IH"(1) [OF Suc 2(1)] bt_suffix [OF 2(2)]
              "6.IH"(2) [OF Suc 2(1) 2(2)]])
    qed
  qed
next
  case (7 r s)
  then show ?case by (auto simp: bt_Grp dest: in_set_takeD)
next
  case (8 s)
  then show ?case by (auto split: if_splits)
qed

lemma re_match_group_subset: "re_match r s = Some (t, Some g) \<Longrightarrow> set g \<subseteq> set s"
proof -
  assume "re_match r s = Some (t, Some g)"
  then have "(t, Some g) \<in> set (bt r s)"
    by (auto simp: re_match_def split: list.splits)
  from bt_group_subset [OF this] show ?thesis by simp
qed

lemma set_strip: "set (strip s) \<subseteq> set s"
proof -
  have "set (strip s) \<subseteq> set (rev (dropWhile is_space s))"
    unfolding strip_def using set_dropWhileD by fastforce
  also have "\<dots> \<subseteq> set s" using set_dropWhileD by fastforce
  finally show ?thesis .
qed

lemma bt_Star_not_LF_all:
  "LF \<notin> set s \<Longrightarrow> \<exists>rest. bt (Star (Cls not_LF)) s = ([], None) # rest"
  by (induction s) (auto simp: not_LF_def)

lemma re_match_comment_tail:
  assumes "LF \<notin> set s"
  shows "\<exists>rest. bt (Cat (Star (Cls not_LF)) Eos) s = ([], None) # rest"
proof -
  from bt_Star_not_LF_all [OF assms] obtain rest where "bt (Star (Cls not_LF)) s = ([], None) # rest"
    by blast
  then show ?thesis by (simp add: bt_Cat)
qed

lemma re_match_INLINE_COMMENT:
  assumes "LF \<notin> set cs"
  shows "re_match INLINE_COMMENT (c # cs) = (if is_hash_or_bang c then Some ([], None) else None)"
proof (cases "is_hash_or_bang c")
  case True
  from re_match_comment_tail [OF assms] obtain rest
    where "bt (Cat (Star (Cls not_LF)) Eos) cs = ([], None) # rest" by blast
  with True show ?thesis
    by (simp add: re_match_def INLINE_COMMENT_def bt_Cat [of "Cls is_hash_or_bang"])
next
  case False
  then show ?thesis
    by (simp add: re_match_def INLINE_COMMENT_def bt_Cat [of "Cls is_hash_or_bang"])
qed

declare re_sub_empty.simps [simp del]

lemma re_sub_empty_Nil [simp]: "re_sub_empty r [] = []"
  by (simp add: re_sub_empty.simps)

lemma re_sub_empty_no_match:
  "re_match r (c # cs) = None \<Longrightarrow> re_sub_empty r (c # cs) = c # re_sub_empty r cs"
  by (subst re_sub_empty.simps) simp

lemma re_sub_empty_match_all:
  "re_match r (c # cs) = Some ([], g) \<Longrightarrow> re_sub_empty r (c # cs) = []"
  by (subst re_sub_empty.simps) simp

lemma re_sub_INLINE_COMMENT:
  "LF \<notin> set s \<Longrightarrow> re_sub_empty INLINE_COMMENT s = takeWhile (\<lambda>c. \<not> is_hash_or_bang c) s"
proof (induction s)
  case Nil
  show ?case by simp
next
  case (Cons c cs)
  then have cs: "LF \<notin> set cs" by simp
  show ?case
  proof (cases "is_hash_or_bang c")
    case True
    with re_match_INLINE_COMMENT [OF cs, of c]
    have "re_match INLINE_COMMENT (c # cs) = Some ([], None)" by simp
    from re_sub_empty_match_all [OF this] True show ?thesis by simp
  next
    case False
    with re_match_INLINE_COMMENT [OF cs, of c]
    have "re_match INLINE_COMMENT (c # cs) = None" by simp
    from re_sub_empty_no_match [OF this] False Cons.IH [OF cs] show ?thesis by simp
  qed
qed

lemma no_comment_chars_after_sub:
  assumes "LF \<notin> set s"
  shows "CHR ''#'' \<notin> set (re_sub_empty INLINE_COMMENT s) \<and> CHR ''!'' \<notin> set (re_sub_empty INLINE_COMMENT s)"
proof -
  have eq: "re_sub_empty INLINE_COMMENT s = takeWhile (\<lambda>c. \<not> is_hash_or_bang c) s"
    by (rule re_sub_INLINE_COMMENT [OF assms])
  have "\<not> is_hash_or_bang c" if "c \<in> set (re_sub_empty INLINE_COMMENT s)" for c
  proof -
    from that have "c \<in> set (takeWhile (\<lambda>c. \<not> is_hash_or_bang c) s)"
      by (simp only: eq)
    from set_takeWhileD [OF this] show ?thesis by simp
  qed
  from this [of "CHR ''#''"] this [of "CHR ''!''"] show ?thesis
    unfolding is_hash_or_bang_def by blast
qed

lemma extract_domain_unfold:
  "extract_domain_from_line line0 =
     (if strip line0 = [] \<or> startswith ''#'' (strip line0) \<or> startswith ''!'' (strip line0) then None
      else if strip (re_sub_empty INLINE_COMMENT (strip line0)) = [] then None
      else case re_match IP_DOMAIN_PATTERN (strip (re_sub_empty INLINE_COMMENT (strip line0))) of
          Some m \<Rightarrow> snd m
        | None \<Rightarrow>
           (case re_match ADBLOCK_PATTERN (strip (re_sub_empty INLINE_COMMENT (strip line0))) of
              Some m \<Rightarrow> snd m
            | None \<Rightarrow>
               if CHR '' '' \<notin> set (strip (re_sub_empty INLINE_COMMENT (strip line0)))
                  \<and> CHR ''/'' \<notin> set (strip (re_sub_empty INLINE_COMMENT (strip line0)))
                  \<and> CHR ''?'' \<notin> set (strip (re_sub_empty INLINE_COMMENT (strip line0)))
                  \<and> CHR ''!'' \<notin> set (strip (re_sub_empty INLINE_COMMENT (strip line0)))
                  \<and> CHR ''#'' \<notin> set (strip (re_sub_empty INLINE_COMMENT (strip line0)))
               then Some (strip (re_sub_empty INLINE_COMMENT (strip line0)))
               else None))"
  unfolding extract_domain_from_line_def Let_def by (simp only: if_cancel)

lemma extract_domain_cases:
  assumes "extract_domain_from_line line0 = Some tok"
  shows "set tok \<subseteq> set (strip (re_sub_empty INLINE_COMMENT (strip line0)))"
proof -
  let ?l = "strip (re_sub_empty INLINE_COMMENT (strip line0))"
  show ?thesis
  proof (cases "re_match IP_DOMAIN_PATTERN ?l")
    case (Some m)
    with assms have "snd m = Some tok"
      by (simp add: extract_domain_unfold split: if_splits)
    with Some have "re_match IP_DOMAIN_PATTERN ?l = Some (fst m, Some tok)"
      by (cases m) simp
    then show ?thesis by (rule re_match_group_subset)
  next
    case None
    note ip = None
    show ?thesis
    proof (cases "re_match ADBLOCK_PATTERN ?l")
      case (Some m)
      with assms ip have "snd m = Some tok"
        by (simp add: extract_domain_unfold split: if_splits)
      with Some have "re_match ADBLOCK_PATTERN ?l = Some (fst m, Some tok)"
        by (cases m) simp
      then show ?thesis by (rule re_match_group_subset)
    next
      case None
      with assms ip have "tok = ?l"
        by (simp add: extract_domain_unfold split: if_splits)
      then show ?thesis by simp
    qed
  qed
qed

subsection \<open>Facts about the text primitives\<close>

lemma startswith_append [simp]: "startswith p (p @ s)"
  by (simp add: startswith_def)

subsection \<open>The texts that a pattern can leave over\<close>

text \<open>
  Whether a pattern matches does not depend on the order of the attempts, only on the set
  of the texts that it can leave over.
\<close>

lemma rems_Cls: "fst ` set (bt (Cls p) s) = {cs. \<exists>c. s = c # cs \<and> p c}"
  by (cases s) auto

lemma rems_Lit: "fst ` set (bt (Lit a) s) = {cs. s = a # cs}"
  by (cases s) auto

lemma rems_later_group: "fst ` set (map (later_group g) ys) = fst ` set ys"
  by (induction ys) simp_all

lemma rems_Cat:
  "fst ` set (bt (Cat r1 r2) s) = (\<Union>s1 \<in> fst ` set (bt r1 s). fst ` set (bt r2 s1))"
proof -
  have "fst ` set (bt (Cat r1 r2) s) = (\<Union>x \<in> set (bt r1 s). fst ` set (map (later_group (snd x)) (bt r2 (fst x))))"
    unfolding bt_Cat by (simp only: set_concat set_map image_UN image_image)
  also have "\<dots> = (\<Union>x \<in> set (bt r1 s). fst ` set (bt r2 (fst x)))"
    by (simp only: rems_later_group)
  also have "\<dots> = (\<Union>s1 \<in> fst ` set (bt r1 s). fst ` set (bt r2 s1))"
    by blast
  finally show ?thesis .
qed

lemma rems_Opt: "fst ` set (bt (Opt r) s) = insert s (fst ` set (bt r s))"
  by auto

lemma rems_Eos: "fst ` set (bt Eos s) = (if s = [] \<or> s = [LF] then {s} else {})"
  by simp

lemma rems_Upto_Cls:
  "fst ` set (bt (Upto n (Cls p)) s) = {drop k s |k. k \<le> n \<and> k \<le> length (takeWhile p s)}"
proof (induction n arbitrary: s)
  case 0
  show ?case by auto
next
  case (Suc n)
  show ?case
  proof (cases s)
    case Nil
    then show ?thesis by auto
  next
    case (Cons c cs)
    show ?thesis
    proof (cases "p c")
      case False
      with Cons show ?thesis by auto
    next
      case True
      have "{drop k (c # cs) |k. k \<le> Suc n \<and> k \<le> Suc (length (takeWhile p cs))}
            = insert (c # cs) {drop k cs |k. k \<le> n \<and> k \<le> length (takeWhile p cs)}"
      proof (intro set_eqI iffI)
        fix t assume "t \<in> {drop k (c # cs) |k. k \<le> Suc n \<and> k \<le> Suc (length (takeWhile p cs))}"
        then obtain k where k: "t = drop k (c # cs)" "k \<le> Suc n" "k \<le> Suc (length (takeWhile p cs))"
          by blast
        show "t \<in> insert (c # cs) {drop k cs |k. k \<le> n \<and> k \<le> length (takeWhile p cs)}"
        proof (cases k)
          case 0
          with k show ?thesis by simp
        next
          case (Suc j)
          with k have "t = drop j cs" "j \<le> n" "j \<le> length (takeWhile p cs)" by simp_all
          then show ?thesis by blast
        qed
      next
        fix t assume "t \<in> insert (c # cs) {drop k cs |k. k \<le> n \<and> k \<le> length (takeWhile p cs)}"
        then consider "t = c # cs" | k where "t = drop k cs" "k \<le> n" "k \<le> length (takeWhile p cs)"
          by blast
        then show "t \<in> {drop k (c # cs) |k. k \<le> Suc n \<and> k \<le> Suc (length (takeWhile p cs))}"
        proof cases
          case 1
          then have "t = drop 0 (c # cs)" by simp
          then show ?thesis by blast
        next
          case 2
          then have "t = drop (Suc k) (c # cs)" "Suc k \<le> Suc n" "Suc k \<le> Suc (length (takeWhile p cs))"
            by simp_all
          then show ?thesis by blast
        qed
      qed
      with Cons True Suc.IH [of cs] show ?thesis by (simp add: Un_commute)
    qed
  qed
qed

lemma bt_Star_self: "(s, None) \<in> set (bt (Star r) s)"
  by (subst bt.simps) simp

lemma bt_Star_step:
  assumes "y \<in> set (bt r s)" and "length (fst y) < length s" and "z \<in> set (bt (Star r) (fst y))"
  shows "later_group (snd y) z \<in> set (bt (Star r) s)"
proof -
  from assms(2) assms(3)
  have "later_group (snd y) z \<in> set (if length (fst y) < length s
           then map (later_group (snd y)) (bt (Star r) (fst y)) else [])"
    by simp
  with assms(1) show ?thesis
    by (subst bt.simps) (simp only: set_append set_concat set_map, blast)
qed

lemma rems_Star:
  "fst ` set (bt (Star r) s)
   = insert s (\<Union>s1 \<in> {t \<in> fst ` set (bt r s). length t < length s}. fst ` set (bt (Star r) s1))"
proof (intro set_eqI iffI)
  fix t assume "t \<in> fst ` set (bt (Star r) s)"
  then obtain x where x: "x \<in> set (bt (Star r) s)" and t: "t = fst x" by blast
  from x consider "x = (s, None)"
    | y z where "y \<in> set (bt r s)" "length (fst y) < length s" "z \<in> set (bt (Star r) (fst y))"
        "x = later_group (snd y) z"
    by (subst (asm) bt.simps) (auto split: if_splits)
  then show "t \<in> insert s (\<Union>s1 \<in> {t \<in> fst ` set (bt r s). length t < length s}. fst ` set (bt (Star r) s1))"
  proof cases
    case 1
    with t show ?thesis by simp
  next
    case 2
    from 2(4) t have "t = fst z" by simp
    with 2(3) have "t \<in> fst ` set (bt (Star r) (fst y))" by blast
    moreover from 2(1) 2(2) have "fst y \<in> {t \<in> fst ` set (bt r s). length t < length s}" by blast
    ultimately show ?thesis by blast
  qed
next
  fix t assume "t \<in> insert s (\<Union>s1 \<in> {t \<in> fst ` set (bt r s). length t < length s}. fst ` set (bt (Star r) s1))"
  then consider "t = s"
    | y z where "y \<in> set (bt r s)" "length (fst y) < length s" "z \<in> set (bt (Star r) (fst y))" "t = fst z"
    by blast
  then show "t \<in> fst ` set (bt (Star r) s)"
  proof cases
    case 1
    with bt_Star_self [of s r] show ?thesis by force
  next
    case 2
    have "fst (later_group (snd y) z) = t" using 2(4) by simp
    with bt_Star_step [OF 2(1) 2(2) 2(3)] show ?thesis by (metis imageI)
  qed
qed

lemma re_match_None_iff: "(re_match r s = None) = (fst ` set (bt r s) = {})"
  by (cases "bt r s") (simp_all add: re_match_def)

subsection \<open>What the domain pattern matches\<close>

lemma takeWhile_length_iff:
  "(k \<le> length (takeWhile p s)) = (k \<le> length s \<and> list_all p (take k s))"
proof (induction s arbitrary: k)
  case Nil
  show ?case by simp
next
  case (Cons c cs)
  show ?case
  proof (cases k)
    case 0
    then show ?thesis by simp
  next
    case (Suc j)
    with Cons [of j] show ?thesis by simp
  qed
qed

lemma label_shape_cases:
  "label_shape l =
     ((\<exists>c. l = [c] \<and> is_alnum c)
      \<or> (\<exists>c m d. l = c # m @ [d] \<and> is_alnum c \<and> is_alnum d \<and> length m \<le> 61
             \<and> list_all is_alnum_hyphen m))"
proof
  assume l: "label_shape l"
  then obtain c r where cr: "l = c # r" by (cases l) (auto simp: label_shape_def)
  show "(\<exists>c. l = [c] \<and> is_alnum c)
      \<or> (\<exists>c m d. l = c # m @ [d] \<and> is_alnum c \<and> is_alnum d \<and> length m \<le> 61
             \<and> list_all is_alnum_hyphen m)"
  proof (cases r rule: rev_cases)
    case Nil
    with l cr show ?thesis by (simp add: label_shape_def)
  next
    case (snoc m d)
    with l cr have "l = c # m @ [d] \<and> is_alnum c \<and> is_alnum d \<and> length m \<le> 61
             \<and> list_all is_alnum_hyphen m"
      by (simp add: label_shape_def)
    then show ?thesis by blast
  qed
next
  assume "(\<exists>c. l = [c] \<and> is_alnum c)
      \<or> (\<exists>c m d. l = c # m @ [d] \<and> is_alnum c \<and> is_alnum d \<and> length m \<le> 61
             \<and> list_all is_alnum_hyphen m)"
  then show "label_shape l"
    by (auto simp: label_shape_def is_alnum_hyphen_def)
qed

lemma rems_label_tail:
  "fst ` set (bt (Cat (Upto 61 (Cls is_alnum_hyphen)) (Cls is_alnum)) s)
   = {t. \<exists>m d. s = m @ d # t \<and> length m \<le> 61 \<and> list_all is_alnum_hyphen m \<and> is_alnum d}"
proof (intro set_eqI iffI)
  fix t assume "t \<in> fst ` set (bt (Cat (Upto 61 (Cls is_alnum_hyphen)) (Cls is_alnum)) s)"
  then obtain k d where k: "k \<le> 61" "k \<le> length (takeWhile is_alnum_hyphen s)"
    and d: "drop k s = d # t" "is_alnum d"
    unfolding rems_Cat rems_Upto_Cls rems_Cls by auto
  from k(2) have ks: "k \<le> length s" "list_all is_alnum_hyphen (take k s)"
    by (simp_all add: takeWhile_length_iff)
  have "s = take k s @ drop k s" by simp
  with d have "s = take k s @ d # t" by simp
  moreover from ks k have "length (take k s) \<le> 61" by simp
  ultimately show "t \<in> {t. \<exists>m d. s = m @ d # t \<and> length m \<le> 61 \<and> list_all is_alnum_hyphen m \<and> is_alnum d}"
    using ks(2) d(2) by blast
next
  fix t assume "t \<in> {t. \<exists>m d. s = m @ d # t \<and> length m \<le> 61 \<and> list_all is_alnum_hyphen m \<and> is_alnum d}"
  then obtain m d where s: "s = m @ d # t" and m: "length m \<le> 61" "list_all is_alnum_hyphen m"
    and d: "is_alnum d" by blast
  have "length m \<le> length (takeWhile is_alnum_hyphen s)"
    using m(2) by (simp add: takeWhile_length_iff s)
  moreover have "drop (length m) s = d # t" by (simp add: s)
  ultimately show "t \<in> fst ` set (bt (Cat (Upto 61 (Cls is_alnum_hyphen)) (Cls is_alnum)) s)"
    unfolding rems_Cat rems_Upto_Cls rems_Cls using m(1) d by auto
qed

lemma rems_LABEL_DOT_raw:
  "fst ` set (bt LABEL_DOT s)
   = {t. \<exists>c cs. s = c # cs \<and> is_alnum c
          \<and> (cs = CHR ''.'' # t
             \<or> (\<exists>m d. cs = m @ d # CHR ''.'' # t \<and> length m \<le> 61
                   \<and> list_all is_alnum_hyphen m \<and> is_alnum d))}"
  unfolding LABEL_DOT_def rems_Cat [of "Cls is_alnum"] rems_Cat [of "Opt _"] rems_Opt rems_Cls
    rems_Lit rems_label_tail
  by auto

lemma rems_LABEL_DOT:
  "fst ` set (bt LABEL_DOT s) = {t. \<exists>l. s = l @ CHR ''.'' # t \<and> label_shape l}"
proof (intro set_eqI iffI)
  fix t assume "t \<in> fst ` set (bt LABEL_DOT s)"
  then obtain c cs where c: "s = c # cs" "is_alnum c"
    and cs: "cs = CHR ''.'' # t
             \<or> (\<exists>m d. cs = m @ d # CHR ''.'' # t \<and> length m \<le> 61
                   \<and> list_all is_alnum_hyphen m \<and> is_alnum d)"
    unfolding rems_LABEL_DOT_raw by blast
  from cs show "t \<in> {t. \<exists>l. s = l @ CHR ''.'' # t \<and> label_shape l}"
  proof
    assume "cs = CHR ''.'' # t"
    with c have "s = [c] @ CHR ''.'' # t" "label_shape [c]"
      by (simp_all add: label_shape_cases)
    then show ?thesis by blast
  next
    assume "\<exists>m d. cs = m @ d # CHR ''.'' # t \<and> length m \<le> 61
                   \<and> list_all is_alnum_hyphen m \<and> is_alnum d"
    then obtain m d where md: "cs = m @ d # CHR ''.'' # t" "length m \<le> 61"
      "list_all is_alnum_hyphen m" "is_alnum d"
      by blast
    with c have "s = (c # m @ [d]) @ CHR ''.'' # t" by simp
    moreover from c md have "label_shape (c # m @ [d])"
      unfolding label_shape_cases [of "c # m @ [d]"] by blast
    ultimately show ?thesis by blast
  qed
next
  fix t assume "t \<in> {t. \<exists>l. s = l @ CHR ''.'' # t \<and> label_shape l}"
  then obtain l where s: "s = l @ CHR ''.'' # t" and l: "label_shape l" by blast
  from l consider c where "l = [c]" "is_alnum c"
    | c m d where "l = c # m @ [d]" "is_alnum c" "is_alnum d" "length m \<le> 61" "list_all is_alnum_hyphen m"
    unfolding label_shape_cases by blast
  then show "t \<in> fst ` set (bt LABEL_DOT s)"
  proof cases
    case 1
    with s show ?thesis unfolding rems_LABEL_DOT_raw by simp
  next
    case 2
    with s have "s = c # (m @ d # CHR ''.'' # t)" by simp
    with 2 show ?thesis unfolding rems_LABEL_DOT_raw by blast
  qed
qed

lemma dotted_Nil [simp]: "dotted [] = []"
  by (simp add: dotted_def)

lemma dotted_Cons [simp]: "dotted (l # ls) = l @ CHR ''.'' # dotted ls"
  by (simp add: dotted_def)

lemma rems_Star_iff:
  "(t \<in> fst ` set (bt (Star r) s))
   = (t = s \<or> (\<exists>s1. s1 \<in> fst ` set (bt r s) \<and> length s1 < length s \<and> t \<in> fst ` set (bt (Star r) s1)))"
proof -
  have "(t \<in> fst ` set (bt (Star r) s))
        = (t \<in> insert s (\<Union>s1 \<in> {t \<in> fst ` set (bt r s). length t < length s}. fst ` set (bt (Star r) s1)))"
    by (subst rems_Star) (rule refl)
  also have "\<dots> = (t = s \<or> (\<exists>s1. s1 \<in> fst ` set (bt r s) \<and> length s1 < length s \<and> t \<in> fst ` set (bt (Star r) s1)))"
    unfolding insert_iff UN_iff mem_Collect_eq bex_simps conj_assoc by (rule refl)
  finally show ?thesis .
qed


lemma in_rems_LABEL_DOT:
  "(t \<in> fst ` set (bt LABEL_DOT s)) = (\<exists>l. s = l @ CHR ''.'' # t \<and> label_shape l)"
  unfolding rems_LABEL_DOT by simp

lemma in_rems_Star_LABEL_DOT:
  "(t \<in> fst ` set (bt (Star LABEL_DOT) s)) = (\<exists>ls. s = dotted ls @ t \<and> list_all label_shape ls)"
proof (induction "length s" arbitrary: s rule: less_induct)
  case less
  show ?case
  proof
    assume "t \<in> fst ` set (bt (Star LABEL_DOT) s)"
    then have "t = s \<or> (\<exists>s1. s1 \<in> fst ` set (bt LABEL_DOT s) \<and> length s1 < length s
                           \<and> t \<in> fst ` set (bt (Star LABEL_DOT) s1))"
      by (simp only: rems_Star_iff [of t LABEL_DOT s])
    then show "\<exists>ls. s = dotted ls @ t \<and> list_all label_shape ls"
    proof
      assume "t = s"
      then have "s = dotted [] @ t \<and> list_all label_shape []" by simp
      then show ?thesis by (rule exI)
    next
      assume "\<exists>s1. s1 \<in> fst ` set (bt LABEL_DOT s) \<and> length s1 < length s
                           \<and> t \<in> fst ` set (bt (Star LABEL_DOT) s1)"
      then obtain s1 where a: "s1 \<in> fst ` set (bt LABEL_DOT s)" and b: "length s1 < length s"
        and c: "t \<in> fst ` set (bt (Star LABEL_DOT) s1)" by blast
      from a obtain l where l: "s = l @ CHR ''.'' # s1" "label_shape l"
        unfolding in_rems_LABEL_DOT by blast
      from c obtain ls where ls: "s1 = dotted ls @ t" "list_all label_shape ls"
        unfolding less [OF b] by blast
      from l ls have "s = dotted (l # ls) @ t \<and> list_all label_shape (l # ls)" by simp
      then show ?thesis by (rule exI)
    qed
  next
    assume "\<exists>ls. s = dotted ls @ t \<and> list_all label_shape ls"
    then obtain ls where ls: "s = dotted ls @ t" "list_all label_shape ls" by blast
    show "t \<in> fst ` set (bt (Star LABEL_DOT) s)"
    proof (cases ls)
      case Nil
      with ls have "t = s \<or> (\<exists>s1. s1 \<in> fst ` set (bt LABEL_DOT s) \<and> length s1 < length s
                           \<and> t \<in> fst ` set (bt (Star LABEL_DOT) s1))"
        by simp
      then show ?thesis by (rule iffD2 [OF rems_Star_iff])
    next
      case (Cons l ks)
      from Cons ls have s: "s = l @ CHR ''.'' # (dotted ks @ t)" and l: "label_shape l"
        and ks: "list_all label_shape ks"
        by simp_all
      from s l have a: "dotted ks @ t \<in> fst ` set (bt LABEL_DOT s)"
        unfolding in_rems_LABEL_DOT by blast
      from s have b: "length (dotted ks @ t) < length s" by simp
      from ks have c: "t \<in> fst ` set (bt (Star LABEL_DOT) (dotted ks @ t))"
        unfolding less [OF b] by blast
      from a b c have "\<exists>s1. s1 \<in> fst ` set (bt LABEL_DOT s) \<and> length s1 < length s
                           \<and> t \<in> fst ` set (bt (Star LABEL_DOT) s1)"
        by blast
      then have "t = s \<or> (\<exists>s1. s1 \<in> fst ` set (bt LABEL_DOT s) \<and> length s1 < length s
                           \<and> t \<in> fst ` set (bt (Star LABEL_DOT) s1))"
        by (rule disjI2)
      then show ?thesis by (rule iffD2 [OF rems_Star_iff])
    qed
  qed
qed

lemma in_rems_Cat:
  "(t \<in> fst ` set (bt (Cat r1 r2) s)) = (\<exists>s1. s1 \<in> fst ` set (bt r1 s) \<and> t \<in> fst ` set (bt r2 s1))"
  unfolding rems_Cat by blast

lemma in_rems_Plus_LABEL_DOT:
  "(t \<in> fst ` set (bt (Plus LABEL_DOT) s))
   = (\<exists>ls. ls \<noteq> [] \<and> s = dotted ls @ t \<and> list_all label_shape ls)"
proof
  assume "t \<in> fst ` set (bt (Plus LABEL_DOT) s)"
  then obtain s1 where "s1 \<in> fst ` set (bt LABEL_DOT s)" "t \<in> fst ` set (bt (Star LABEL_DOT) s1)"
    unfolding Plus_def in_rems_Cat by blast
  then obtain l ls where "s = l @ CHR ''.'' # s1" "label_shape l" "s1 = dotted ls @ t"
    "list_all label_shape ls"
    unfolding in_rems_LABEL_DOT in_rems_Star_LABEL_DOT by blast
  then have "l # ls \<noteq> [] \<and> s = dotted (l # ls) @ t \<and> list_all label_shape (l # ls)" by simp
  then show "\<exists>ls. ls \<noteq> [] \<and> s = dotted ls @ t \<and> list_all label_shape ls" by (rule exI)
next
  assume "\<exists>ls. ls \<noteq> [] \<and> s = dotted ls @ t \<and> list_all label_shape ls"
  then obtain ls where ls: "ls \<noteq> []" "s = dotted ls @ t" "list_all label_shape ls" by blast
  from ls(1) obtain l ks where "ls = l # ks" by (cases ls) auto
  with ls have s: "s = l @ CHR ''.'' # (dotted ks @ t)" and l: "label_shape l"
    and ks: "list_all label_shape ks"
    by simp_all
  from s l have a: "dotted ks @ t \<in> fst ` set (bt LABEL_DOT s)"
    unfolding in_rems_LABEL_DOT by blast
  from ks have b: "t \<in> fst ` set (bt (Star LABEL_DOT) (dotted ks @ t))"
    unfolding in_rems_Star_LABEL_DOT by blast
  from a b show "t \<in> fst ` set (bt (Plus LABEL_DOT) s)"
    unfolding Plus_def in_rems_Cat by blast
qed

lemma in_rems_label_tail:
  "(t \<in> fst ` set (bt (Cat (Upto 61 (Cls is_alnum_hyphen)) (Cls is_alnum)) s))
   = (\<exists>m d. s = m @ d # t \<and> length m \<le> 61 \<and> list_all is_alnum_hyphen m \<and> is_alnum d)"
  unfolding rems_label_tail by simp

lemma in_rems_Cls: "(t \<in> fst ` set (bt (Cls p) s)) = (\<exists>c. s = c # t \<and> p c)"
  unfolding rems_Cls by simp

lemma in_rems_Eos: "(t \<in> fst ` set (bt Eos s)) = (t = s \<and> (s = [] \<or> s = [LF]))"
  unfolding rems_Eos by auto

lemma in_rems_final_label_raw:
  "(e \<in> fst ` set (bt (Cat (Cls is_alnum) (Cat (Upto 61 (Cls is_alnum_hyphen)) (Cat (Cls is_alnum) Eos))) s))
   = ((e = [] \<or> e = [LF]) \<and> (\<exists>c m d. s = c # m @ d # e \<and> is_alnum c \<and> length m \<le> 61
            \<and> list_all is_alnum_hyphen m \<and> is_alnum d))"
proof -
  have assoc: "fst ` set (bt (Cat (Upto 61 (Cls is_alnum_hyphen)) (Cat (Cls is_alnum) Eos)) u)
        = fst ` set (bt (Cat (Cat (Upto 61 (Cls is_alnum_hyphen)) (Cls is_alnum)) Eos) u)" for u
    unfolding rems_Cat by blast
  have "(e \<in> fst ` set (bt (Cat (Cls is_alnum) (Cat (Upto 61 (Cls is_alnum_hyphen)) (Cat (Cls is_alnum) Eos))) s))
      = (\<exists>s1. (\<exists>c. s = c # s1 \<and> is_alnum c)
           \<and> (\<exists>s2. (\<exists>m d. s1 = m @ d # s2 \<and> length m \<le> 61 \<and> list_all is_alnum_hyphen m \<and> is_alnum d)
                 \<and> e = s2 \<and> (s2 = [] \<or> s2 = [LF])))"
    unfolding in_rems_Cat [of e "Cls is_alnum"] assoc in_rems_Cat [of e "Cat _ _"] in_rems_Cls
      in_rems_label_tail in_rems_Eos
    by (rule refl)
  also have "\<dots> = ((e = [] \<or> e = [LF]) \<and> (\<exists>c m d. s = c # m @ d # e \<and> is_alnum c \<and> length m \<le> 61
            \<and> list_all is_alnum_hyphen m \<and> is_alnum d))"
    by auto
  finally show ?thesis .
qed

lemma long_label_cases:
  "(\<exists>c m d. l = c # m @ [d] \<and> is_alnum c \<and> length m \<le> 61 \<and> list_all is_alnum_hyphen m \<and> is_alnum d)
   = (label_shape l \<and> 2 \<le> length l)"
proof
  assume "\<exists>c m d. l = c # m @ [d] \<and> is_alnum c \<and> length m \<le> 61 \<and> list_all is_alnum_hyphen m \<and> is_alnum d"
  then obtain c m d where x: "l = c # m @ [d]" "is_alnum c" "length m \<le> 61"
    "list_all is_alnum_hyphen m" "is_alnum d" by blast
  then have "label_shape l" unfolding label_shape_cases [of l] by blast
  with x(1) show "label_shape l \<and> 2 \<le> length l" by simp
next
  assume a: "label_shape l \<and> 2 \<le> length l"
  then have "(\<exists>c. l = [c] \<and> is_alnum c)
      \<or> (\<exists>c m d. l = c # m @ [d] \<and> is_alnum c \<and> is_alnum d \<and> length m \<le> 61
             \<and> list_all is_alnum_hyphen m)"
    by (simp only: label_shape_cases [of l])
  then show "\<exists>c m d. l = c # m @ [d] \<and> is_alnum c \<and> length m \<le> 61 \<and> list_all is_alnum_hyphen m \<and> is_alnum d"
  proof
    assume "\<exists>c. l = [c] \<and> is_alnum c"
    with a show ?thesis by auto
  next
    assume "\<exists>c m d. l = c # m @ [d] \<and> is_alnum c \<and> is_alnum d \<and> length m \<le> 61
             \<and> list_all is_alnum_hyphen m"
    then show ?thesis by blast
  qed
qed

lemma in_rems_final_label:
  "(e \<in> fst ` set (bt (Cat (Cls is_alnum) (Cat (Upto 61 (Cls is_alnum_hyphen)) (Cat (Cls is_alnum) Eos))) s))
   = ((e = [] \<or> e = [LF]) \<and> (\<exists>l. s = l @ e \<and> label_shape l \<and> 2 \<le> length l))"
proof -
  have "(\<exists>c m d. s = c # m @ d # e \<and> is_alnum c \<and> length m \<le> 61
            \<and> list_all is_alnum_hyphen m \<and> is_alnum d)
        = (\<exists>l. s = l @ e \<and> (\<exists>c m d. l = c # m @ [d] \<and> is_alnum c \<and> length m \<le> 61
                                  \<and> list_all is_alnum_hyphen m \<and> is_alnum d))"
  proof
    assume "\<exists>c m d. s = c # m @ d # e \<and> is_alnum c \<and> length m \<le> 61
            \<and> list_all is_alnum_hyphen m \<and> is_alnum d"
    then obtain c m d where x: "s = c # m @ d # e" "is_alnum c" "length m \<le> 61"
      "list_all is_alnum_hyphen m" "is_alnum d" by blast
    from x(1) have "s = (c # m @ [d]) @ e" by simp
    with x show "\<exists>l. s = l @ e \<and> (\<exists>c m d. l = c # m @ [d] \<and> is_alnum c \<and> length m \<le> 61
                                  \<and> list_all is_alnum_hyphen m \<and> is_alnum d)"
      by blast
  next
    assume "\<exists>l. s = l @ e \<and> (\<exists>c m d. l = c # m @ [d] \<and> is_alnum c \<and> length m \<le> 61
                                  \<and> list_all is_alnum_hyphen m \<and> is_alnum d)"
    then obtain l c m d where x: "s = l @ e" "l = c # m @ [d]" "is_alnum c" "length m \<le> 61"
      "list_all is_alnum_hyphen m" "is_alnum d" by blast
    then have "s = c # m @ d # e" by simp
    with x show "\<exists>c m d. s = c # m @ d # e \<and> is_alnum c \<and> length m \<le> 61
            \<and> list_all is_alnum_hyphen m \<and> is_alnum d"
      by blast
  qed
  then show ?thesis
    unfolding in_rems_final_label_raw long_label_cases by (rule arg_cong)
qed

lemma re_match_DOMAIN_PATTERN:
  "(re_match DOMAIN_PATTERN s \<noteq> None)
   = (\<exists>ls l e. ls \<noteq> [] \<and> list_all label_shape ls \<and> label_shape l \<and> 2 \<le> length l
        \<and> (e = [] \<or> e = [LF]) \<and> s = dotted ls @ l @ e)"
proof -
  have "(re_match DOMAIN_PATTERN s \<noteq> None) = (\<exists>e. e \<in> fst ` set (bt DOMAIN_PATTERN s))"
    unfolding re_match_None_iff ex_in_conv by (rule refl)
  also have "\<dots> = (\<exists>e s1. (\<exists>ls. ls \<noteq> [] \<and> s = dotted ls @ s1 \<and> list_all label_shape ls)
                     \<and> (e = [] \<or> e = [LF]) \<and> (\<exists>l. s1 = l @ e \<and> label_shape l \<and> 2 \<le> length l))"
    unfolding DOMAIN_PATTERN_def in_rems_Cat [of _ "Plus LABEL_DOT"] in_rems_Plus_LABEL_DOT
      in_rems_final_label
    by (rule refl)
  also have "\<dots> = (\<exists>ls l e. ls \<noteq> [] \<and> list_all label_shape ls \<and> label_shape l \<and> 2 \<le> length l
        \<and> (e = [] \<or> e = [LF]) \<and> s = dotted ls @ l @ e)"
  proof
    assume "\<exists>e s1. (\<exists>ls. ls \<noteq> [] \<and> s = dotted ls @ s1 \<and> list_all label_shape ls)
                     \<and> (e = [] \<or> e = [LF]) \<and> (\<exists>l. s1 = l @ e \<and> label_shape l \<and> 2 \<le> length l)"
    then obtain e s1 ls l where x: "ls \<noteq> []" "s = dotted ls @ s1" "list_all label_shape ls"
      "e = [] \<or> e = [LF]" "s1 = l @ e" "label_shape l" "2 \<le> length l"
      by blast
    from x(2) x(5) have "s = dotted ls @ l @ e" by simp
    with x show "\<exists>ls l e. ls \<noteq> [] \<and> list_all label_shape ls \<and> label_shape l \<and> 2 \<le> length l
        \<and> (e = [] \<or> e = [LF]) \<and> s = dotted ls @ l @ e"
      by blast
  next
    assume "\<exists>ls l e. ls \<noteq> [] \<and> list_all label_shape ls \<and> label_shape l \<and> 2 \<le> length l
        \<and> (e = [] \<or> e = [LF]) \<and> s = dotted ls @ l @ e"
    then obtain ls l e where x: "ls \<noteq> []" "list_all label_shape ls" "label_shape l" "2 \<le> length l"
      "e = [] \<or> e = [LF]" "s = dotted ls @ l @ e"
      by blast
    have "l @ e = l @ e" ..
    with x show "\<exists>e s1. (\<exists>ls. ls \<noteq> [] \<and> s = dotted ls @ s1 \<and> list_all label_shape ls)
                     \<and> (e = [] \<or> e = [LF]) \<and> (\<exists>l. s1 = l @ e \<and> label_shape l \<and> 2 \<le> length l)"
      by blast
  qed
  finally show ?thesis .
qed

lemma split_on_not_Nil [simp]: "split_on c s \<noteq> []"
  by (cases s) simp_all

lemma split_on_label:
  "c \<notin> set l \<Longrightarrow> split_on c (l @ c # t) = l # split_on c t"
  by (induction l) auto

lemma split_on_last_label:
  "c \<notin> set l \<Longrightarrow> split_on c l = [l]"
  by (induction l) auto

lemma split_on_dotted:
  assumes "\<forall>x \<in> set ls. CHR ''.'' \<notin> set x" and "CHR ''.'' \<notin> set l"
  shows "split_on (CHR ''.'') (dotted ls @ l) = ls @ [l]"
  using assms
proof (induction ls)
  case Nil
  then show ?case by (simp add: split_on_last_label)
next
  case (Cons x xs)
  then have "split_on (CHR ''.'') (x @ CHR ''.'' # (dotted xs @ l)) = x # (xs @ [l])"
    by (simp add: split_on_label)
  then show ?case by simp
qed

lemma dotted_split_on:
  "dotted (butlast (split_on (CHR ''.'') s)) @ last (split_on (CHR ''.'') s) = s"
proof (induction s)
  case Nil
  show ?case by simp
next
  case (Cons x xs)
  obtain h t where sp: "split_on (CHR ''.'') xs = h # t"
    by (cases "split_on (CHR ''.'') xs") simp_all
  show ?case
  proof (cases "x = CHR ''.''")
    case True
    with Cons sp show ?thesis by simp
  next
    case False
    with Cons sp show ?thesis by (cases t) simp_all
  qed
qed

lemma label_shape_chars:
  assumes "label_shape l"
  shows "CHR ''.'' \<notin> set l" and "LF \<notin> set l" and "l \<noteq> []"
proof -
  from assms have a: "\<forall>c \<in> set l. is_alnum_hyphen c" and n: "l \<noteq> []"
    by (auto simp: label_shape_def list_all_iff)
  have "\<not> is_alnum_hyphen (CHR ''.'')" "\<not> is_alnum_hyphen LF" by code_simp+
  with a show "CHR ''.'' \<notin> set l" "LF \<notin> set l" by blast+
  from n show "l \<noteq> []" .
qed

lemma domain_shape_iff:
  "domain_shape s
   = (\<exists>ls l. ls \<noteq> [] \<and> list_all label_shape ls \<and> label_shape l \<and> 2 \<le> length l \<and> s = dotted ls @ l)"
proof
  assume d: "domain_shape s"
  define sp where "sp = split_on (CHR ''.'') s"
  from d have x: "2 \<le> length sp" "list_all label_shape (butlast sp)" "label_shape (last sp)"
    "2 \<le> length (last sp)"
    by (simp_all add: domain_shape_def Let_def sp_def)
  from x(1) have "butlast sp \<noteq> []" by (cases sp rule: rev_cases) auto
  moreover have "s = dotted (butlast sp) @ last sp"
    unfolding sp_def by (simp only: dotted_split_on)
  ultimately show "\<exists>ls l. ls \<noteq> [] \<and> list_all label_shape ls \<and> label_shape l \<and> 2 \<le> length l \<and> s = dotted ls @ l"
    using x by blast
next
  assume "\<exists>ls l. ls \<noteq> [] \<and> list_all label_shape ls \<and> label_shape l \<and> 2 \<le> length l \<and> s = dotted ls @ l"
  then obtain ls l where x: "ls \<noteq> []" "list_all label_shape ls" "label_shape l" "2 \<le> length l"
    "s = dotted ls @ l" by blast
  from x(2) have "\<forall>x \<in> set ls. CHR ''.'' \<notin> set x"
    by (auto simp: list_all_iff dest: label_shape_chars(1))
  from split_on_dotted [OF this label_shape_chars(1) [OF x(3)]] x(5)
  have "split_on (CHR ''.'') s = ls @ [l]" by simp
  with x show "domain_shape s"
    by (cases ls) (simp_all add: domain_shape_def Let_def)
qed

lemma dotted_last:
  assumes "l \<noteq> []"
  shows "last (dotted ls @ l) = last l" and "dotted ls @ l \<noteq> []"
  using assms by simp_all

lemma re_match_DOMAIN_PATTERN_shape:
  "(re_match DOMAIN_PATTERN s \<noteq> None) = domain_shape (without_final_LF s)"
proof
  assume "re_match DOMAIN_PATTERN s \<noteq> None"
  then obtain ls l e where x: "ls \<noteq> []" "list_all label_shape ls" "label_shape l" "2 \<le> length l"
    "e = [] \<or> e = [LF]" "s = dotted ls @ l @ e"
    unfolding re_match_DOMAIN_PATTERN by blast
  from label_shape_chars [OF x(3)] have l: "LF \<notin> set l" "l \<noteq> []" by simp_all
  have "last l \<noteq> LF"
  proof
    assume "last l = LF"
    with last_in_set [OF l(2)] l(1) show False by simp
  qed
  with x(5) x(6) l(2) have "without_final_LF s = dotted ls @ l"
    by (auto simp: without_final_LF_def butlast_append)
  with x show "domain_shape (without_final_LF s)"
    unfolding domain_shape_iff by blast
next
  assume "domain_shape (without_final_LF s)"
  then obtain ls l where x: "ls \<noteq> []" "list_all label_shape ls" "label_shape l" "2 \<le> length l"
    "without_final_LF s = dotted ls @ l"
    unfolding domain_shape_iff by blast
  have "\<exists>e. (e = [] \<or> e = [LF]) \<and> s = without_final_LF s @ e"
  proof (cases "s \<noteq> [] \<and> last s = LF")
    case True
    then have "s = butlast s @ [LF]" using append_butlast_last_id [of s] by simp
    with True have "s = without_final_LF s @ [LF]" by (simp add: without_final_LF_def)
    then show ?thesis by blast
  next
    case False
    then have "s = without_final_LF s @ []" by (auto simp: without_final_LF_def)
    then show ?thesis by blast
  qed
  then obtain e where e: "e = [] \<or> e = [LF]" "s = without_final_LF s @ e" by blast
  from e(2) x(5) have "s = dotted ls @ l @ e" by simp
  with x e(1) show "re_match DOMAIN_PATTERN s \<noteq> None"
    unfolding re_match_DOMAIN_PATTERN by blast
qed

subsection \<open>One step of the second pass\<close>

lemma process_line_comment:
  "startswith ''#'' (strip l) \<or> startswith ''!'' (strip l)
   \<Longrightarrow> process_line pm pg pf l st = Inr (comment_line pm pg (strip l) st)"
  by (simp add: process_line_def Let_def)

lemma line_domain_comment:
  "startswith ''#'' (strip l) \<or> startswith ''!'' (strip l) \<Longrightarrow> line_domain l = None"
  by (auto simp add: line_domain_def Let_def)

lemma process_line_no_domain:
  "\<not> (startswith ''#'' (strip l) \<or> startswith ''!'' (strip l)) \<Longrightarrow> line_domain l = None
   \<Longrightarrow> process_line pm pg pf l st = Inr st"
  by (auto simp add: process_line_def line_domain_def Let_def split: option.splits if_splits)

lemma process_line_domain:
  "line_domain l = Some d \<Longrightarrow> process_line pm pg pf l st = add_domain pg pf (strip l) d st"
  by (auto simp add: process_line_def line_domain_def Let_def split: option.splits if_splits)

lemma opens_group_comment:
  "opens_group l = Some g \<Longrightarrow> startswith ''#'' (strip l) \<or> startswith ''!'' (strip l)"
  by (auto simp add: opens_group_def Let_def split: if_splits)

lemma comment_line_fields [simp]:
  "domains (comment_line pm pg l st) = domains st"
  "domain_formats (comment_line pm pg l st) = domain_formats st"
  by (simp_all add: comment_line_def Let_def)

lemma comment_line_groups:
  "groups (comment_line pm pg (strip l) st) =
     (case (if pg then opens_group l else None) of None \<Rightarrow> groups st | Some g \<Rightarrow> AList.update g [] (groups st))"
  "current_group (comment_line pm pg (strip l) st) =
     (case (if pg then opens_group l else None) of None \<Rightarrow> current_group st | Some g \<Rightarrow> Some g)"
  if "startswith ''#'' (strip l) \<or> startswith ''!'' (strip l)"
  using that by (auto simp add: opens_group_def comment_line_def Let_def split: if_splits)

lemma add_domain_Inr:
  assumes "add_domain pg pf line d st = Inr st'"
  shows "domains st' = insert d (domains st)"
    and "domain_formats st' = (if pf then (domain_formats st)(d \<mapsto> line) else domain_formats st)"
    and "current_group st' = current_group st"
    and "metadata st' = metadata st"
    and "groups st' = (case open_group pg st of None \<Rightarrow> groups st
                       | Some g \<Rightarrow> AList.update g (the (map_of (groups st) g) @ [d]) (groups st))"
  using assms
  by (auto simp add: add_domain_def Let_def open_group_def split: option.splits if_splits)

lemma second_pass_append:
  "second_pass pm pg pf (xs @ ys) st =
     (case second_pass pm pg pf xs st of Inl e \<Rightarrow> Inl e | Inr st' \<Rightarrow> second_pass pm pg pf ys st')"
  by (induction xs arbitrary: st) (auto split: sum.splits)

lemma second_pass_invariant:
  assumes "second_pass pm pg pf ls st0 = Inr st" and "P st0"
    and "\<And>l s s'. l \<in> set ls \<Longrightarrow> P s \<Longrightarrow> process_line pm pg pf l s = Inr s' \<Longrightarrow> P s'"
  shows "P st"
  using assms
proof (induction ls arbitrary: st0)
  case Nil
  then show ?case by simp
next
  case (Cons l ls)
  from Cons.prems(1) obtain s1 where s1: "process_line pm pg pf l st0 = Inr s1"
    and rest: "second_pass pm pg pf ls s1 = Inr st"
    by (auto split: sum.splits)
  from Cons.prems(3) [OF _ Cons.prems(2) s1] have "P s1" by simp
  moreover have "P s'" if "k \<in> set ls" "P s" "process_line pm pg pf k s = Inr s'" for k s s'
    using Cons.prems(3) [of k s s'] that by simp
  ultimately show ?case using Cons.IH [OF rest] by blast
qed

subsection \<open>What the second pass accumulates\<close>

lemma process_line_domains:
  assumes "process_line pm pg pf l s = Inr s'"
  shows "domains s' = (case line_domain l of None \<Rightarrow> domains s | Some d \<Rightarrow> insert d (domains s))"
proof (cases "line_domain l")
  case (Some d)
  with assms add_domain_Inr(1) [of pg pf "strip l" d s s'] show ?thesis
    by (simp add: process_line_domain)
next
  case None
  show ?thesis
  proof (cases "startswith ''#'' (strip l) \<or> startswith ''!'' (strip l)")
    case True
    with assms None show ?thesis by (auto simp: process_line_comment)
  next
    case False
    with assms None show ?thesis by (simp add: process_line_no_domain)
  qed
qed

lemma process_line_formats:
  assumes "process_line pm pg pf l s = Inr s'"
  shows "domain_formats s' = (case line_domain l of None \<Rightarrow> domain_formats s
           | Some d \<Rightarrow> if pf then (domain_formats s)(d \<mapsto> strip l) else domain_formats s)"
proof (cases "line_domain l")
  case (Some d)
  with assms add_domain_Inr(2) [of pg pf "strip l" d s s'] show ?thesis
    by (simp add: process_line_domain)
next
  case None
  show ?thesis
  proof (cases "startswith ''#'' (strip l) \<or> startswith ''!'' (strip l)")
    case True
    with assms None show ?thesis by (auto simp: process_line_comment)
  next
    case False
    with assms None show ?thesis by (simp add: process_line_no_domain)
  qed
qed

lemma second_pass_formats_unchanged:
  assumes "second_pass pm pg pf ls s1 = Inr st" and "\<forall>l \<in> set ls. line_domain l \<noteq> Some d"
  shows "domain_formats st d = domain_formats s1 d"
proof (rule second_pass_invariant [OF assms(1), where P = "\<lambda>s. domain_formats s d = domain_formats s1 d"])
  show "domain_formats s1 d = domain_formats s1 d" ..
next
  fix l s s'
  assume l: "l \<in> set ls" and s: "domain_formats s d = domain_formats s1 d"
    and p: "process_line pm pg pf l s = Inr s'"
  from l assms(2) have "line_domain l \<noteq> Some d" by blast
  with process_line_formats [OF p] s show "domain_formats s' d = domain_formats s1 d"
    by (auto split: option.splits)
qed

lemma second_pass_domains_mono:
  assumes "second_pass pm pg pf ls s1 = Inr st"
  shows "domains s1 \<subseteq> domains st"
proof (rule second_pass_invariant [OF assms, where P = "\<lambda>s. domains s1 \<subseteq> domains s"])
  show "domains s1 \<subseteq> domains s1" ..
next
  fix l s s'
  assume "domains s1 \<subseteq> domains s" and p: "process_line pm pg pf l s = Inr s'"
  with process_line_domains [OF p] show "domains s1 \<subseteq> domains s'"
    by (auto split: option.splits)
qed

text \<open>The lookup \<open>groups[current_group]\<close> never raises: the current group is a key.\<close>

lemma process_line_total:
  assumes "\<forall>g. current_group s = Some g \<longrightarrow> map_of (groups s) g \<noteq> None"
  shows "\<exists>s'. process_line pm pg pf l s = Inr s'
              \<and> (\<forall>g. current_group s' = Some g \<longrightarrow> map_of (groups s') g \<noteq> None)"
proof (cases "startswith ''#'' (strip l) \<or> startswith ''!'' (strip l)")
  case True
  have "\<forall>g. current_group (comment_line pm pg (strip l) s) = Some g
          \<longrightarrow> map_of (groups (comment_line pm pg (strip l) s)) g \<noteq> None"
    using assms by (auto simp: comment_line_groups [OF True] update_conv' split: option.splits)
  with True show ?thesis by (simp add: process_line_comment)
next
  case False
  show ?thesis
  proof (cases "line_domain l")
    case None
    with False assms show ?thesis by (simp add: process_line_no_domain)
  next
    case (Some d)
    show ?thesis
    proof (cases "open_group pg s")
      case None
      then show ?thesis using assms Some
        by (simp add: process_line_domain add_domain_def Let_def open_group_def)
    next
      case (Some g)
      then have cg: "current_group s = Some g"
        by (auto simp: open_group_def split: option.splits if_splits)
      with assms obtain ms where ms: "map_of (groups s) g = Some ms" by auto
      from Some cg ms assms \<open>line_domain l = Some d\<close> show ?thesis
        by (auto simp: process_line_domain add_domain_def Let_def open_group_def update_conv')
    qed
  qed
qed

lemma second_pass_total_from:
  assumes "\<forall>g. current_group s = Some g \<longrightarrow> map_of (groups s) g \<noteq> None"
  shows "\<exists>st. second_pass pm pg pf ls s = Inr st"
  using assms
proof (induction ls arbitrary: s)
  case Nil
  show ?case by simp
next
  case (Cons l ls)
  from process_line_total [OF Cons.prems, of pm pg pf l] obtain s'
    where s': "process_line pm pg pf l s = Inr s'"
      and i: "\<forall>g. current_group s' = Some g \<longrightarrow> map_of (groups s') g \<noteq> None"
    by blast
  from Cons.IH [OF i] s' show ?case by simp
qed

lemma second_pass_total: "\<exists>st. second_pass pm pg pf ls initial_state = Inr st"
  by (rule second_pass_total_from) (simp add: initial_state_def)

subsection \<open>Groups in the second pass\<close>

lemma update_members:
  "(k', v') \<in> set (AList.update k v al) \<Longrightarrow> (k', v') \<in> set al \<or> (k' = k \<and> v' = v)"
  by (induction al) (auto split: if_splits)

lemma process_line_groups:
  assumes "process_line pm pg pf l s = Inr s'"
  shows "groups s' =
     (if startswith ''#'' (strip l) \<or> startswith ''!'' (strip l) then
        (case (if pg then opens_group l else None) of None \<Rightarrow> groups s
         | Some g \<Rightarrow> AList.update g [] (groups s))
      else case line_domain l of None \<Rightarrow> groups s
         | Some d \<Rightarrow> (case open_group pg s of None \<Rightarrow> groups s
             | Some g \<Rightarrow> AList.update g (the (map_of (groups s) g) @ [d]) (groups s)))"
proof (cases "startswith ''#'' (strip l) \<or> startswith ''!'' (strip l)")
  case True
  with assms comment_line_groups(1) [OF True, of pm pg s] show ?thesis
    by (auto simp: process_line_comment)
next
  case False
  show ?thesis
  proof (cases "line_domain l")
    case None
    with False assms show ?thesis by (auto simp: process_line_no_domain)
  next
    case (Some d)
    with False assms add_domain_Inr(5) [of pg pf "strip l" d s s'] show ?thesis
      by (simp add: process_line_domain)
  qed
qed

lemma process_line_current_group:
  assumes "process_line pm pg pf l s = Inr s'"
  shows "current_group s' =
     (case (if pg then opens_group l else None) of None \<Rightarrow> current_group s | Some g \<Rightarrow> Some g)"
proof (cases "startswith ''#'' (strip l) \<or> startswith ''!'' (strip l)")
  case True
  with assms comment_line_groups(2) [OF True, of pm pg s] show ?thesis
    by (auto simp: process_line_comment)
next
  case False
  then have og: "opens_group l = None"
    by (auto simp: opens_group_def Let_def)
  show ?thesis
  proof (cases "line_domain l")
    case None
    with False assms og show ?thesis by (auto simp: process_line_no_domain)
  next
    case (Some d)
    with False assms og add_domain_Inr(3) [of pg pf "strip l" d s s'] show ?thesis
      by (simp add: process_line_domain)
  qed
qed

lemma add_domain_KeyError:
  "open_group pg s = Some g \<Longrightarrow> map_of (groups s) g = None \<Longrightarrow> add_domain pg pf line d s = Inl KeyError"
  by (cases pf) (simp_all add: add_domain_def Let_def open_group_def)

lemma open_group_map_of:
  assumes "open_group pg s = Some g" and "process_line pm pg pf l s = Inr s'" and "line_domain l = Some d"
  shows "map_of (groups s) g \<noteq> None"
proof
  assume "map_of (groups s) g = None"
  from add_domain_KeyError [OF assms(1) this, of pf "strip l" d] assms(2) assms(3)
  show False by (simp add: process_line_domain)
qed

lemma process_line_members:
  assumes p: "process_line pm pg pf l s = Inr s'"
    and i: "\<forall>g ms. (g, ms) \<in> set (groups s) \<longrightarrow> set ms \<subseteq> domains s"
  shows "\<forall>g ms. (g, ms) \<in> set (groups s') \<longrightarrow> set ms \<subseteq> domains s'"
proof (intro allI impI)
  fix g ms assume m: "(g, ms) \<in> set (groups s')"
  have mono: "domains s \<subseteq> domains s'"
    using process_line_domains [OF p] by (auto split: option.splits)
  show "set ms \<subseteq> domains s'"
  proof (cases "(g, ms) \<in> set (groups s)")
    case True
    with i mono show ?thesis by blast
  next
    case False
    show ?thesis
    proof (cases "startswith ''#'' (strip l) \<or> startswith ''!'' (strip l)")
      case True
      with m False process_line_groups [OF p] have "ms = []"
        by (auto split: option.splits if_splits dest: update_members)
      then show ?thesis by simp
    next
      case nc: False
      from m False nc process_line_groups [OF p] obtain d h
        where d: "line_domain l = Some d" and h: "open_group pg s = Some h"
          and u: "(g, ms) \<in> set (AList.update h (the (map_of (groups s) h) @ [d]) (groups s))"
        by (auto split: option.splits if_splits)
      from update_members [OF u] False have ms: "ms = the (map_of (groups s) h) @ [d]" by blast
      from open_group_map_of [OF h p d] obtain old where old: "map_of (groups s) h = Some old" by auto
      then have "(h, old) \<in> set (groups s)" by (rule map_of_SomeD)
      with i have "set old \<subseteq> domains s" by blast
      moreover from process_line_domains [OF p] d have "d \<in> domains s'" by simp
      ultimately show ?thesis using ms old mono by auto
    qed
  qed
qed

lemma second_pass_members:
  assumes "second_pass pm pg pf ls initial_state = Inr st"
  shows "\<forall>g ms. (g, ms) \<in> set (groups st) \<longrightarrow> set ms \<subseteq> domains st"
proof (rule second_pass_invariant [OF assms,
        where P = "\<lambda>s. \<forall>g ms. (g, ms) \<in> set (groups s) \<longrightarrow> set ms \<subseteq> domains s"])
  show "\<forall>g ms. (g, ms) \<in> set (groups initial_state) \<longrightarrow> set ms \<subseteq> domains initial_state"
    by (simp add: initial_state_def)
next
  fix l s s'
  assume "\<forall>g ms. (g, ms) \<in> set (groups s) \<longrightarrow> set ms \<subseteq> domains s"
    and "process_line pm pg pf l s = Inr s'"
  then show "\<forall>g ms. (g, ms) \<in> set (groups s') \<longrightarrow> set ms \<subseteq> domains s'"
    by (rule process_line_members [rotated])
qed

lemma process_line_opens_group:
  assumes "opens_group l = Some g" and "process_line pm True pf l s = Inr s'"
  shows "current_group s' = Some g \<and> map_of (groups s') g = Some []"
proof -
  from opens_group_comment [OF assms(1)] have c: "startswith ''#'' (strip l) \<or> startswith ''!'' (strip l)" .
  with process_line_groups [OF assms(2)] assms(1) have "groups s' = AList.update g [] (groups s)"
    by simp
  with process_line_current_group [OF assms(2)] assms(1) show ?thesis
    by (simp add: update_conv')
qed

subsection \<open>The members of a group behind its last label\<close>

lemma second_pass_under_group:
  assumes "second_pass pm True pf ls s = Inr s'"
    and "current_group s = Some g" and "g \<noteq> []" and "map_of (groups s) g = Some ms0"
    and "\<forall>l \<in> set ls. opens_group l = None"
  shows "current_group s' = Some g \<and> map_of (groups s') g = Some (ms0 @ List.map_filter line_domain ls)"
  using assms
proof (induction ls arbitrary: s ms0)
  case Nil
  then show ?case by (simp add: map_filter_simps)
next
  case (Cons l ls)
  from Cons.prems(1) obtain s1 where s1: "process_line pm True pf l s = Inr s1"
    and rest: "second_pass pm True pf ls s1 = Inr s'"
    by (auto split: sum.splits)
  from Cons.prems(5) have og: "opens_group l = None" and ogs: "\<forall>l \<in> set ls. opens_group l = None"
    by simp_all
  from process_line_current_group [OF s1] og Cons.prems(2) have cg: "current_group s1 = Some g"
    by simp
  from Cons.prems(2) Cons.prems(3) have op: "open_group True s = Some g"
    by (simp add: open_group_def)
  show ?case
  proof (cases "line_domain l")
    case None
    with process_line_groups [OF s1] og have "groups s1 = groups s" by simp
    with Cons.prems(4) have "map_of (groups s1) g = Some ms0" by simp
    from Cons.IH [OF rest cg Cons.prems(3) this ogs] None show ?thesis
      by (simp add: map_filter_simps)
  next
    case (Some d)
    with line_domain_comment [of l] have "\<not> (startswith ''#'' (strip l) \<or> startswith ''!'' (strip l))"
      by auto
    with process_line_groups [OF s1] Some op Cons.prems(4)
    have "groups s1 = AList.update g (ms0 @ [d]) (groups s)" by simp
    then have "map_of (groups s1) g = Some (ms0 @ [d])" by (simp add: update_conv')
    from Cons.IH [OF rest cg Cons.prems(3) this ogs] Some show ?thesis
      by (simp add: map_filter_simps)
  qed
qed

lemma second_pass_other_group:
  assumes "second_pass pm True pf ls s = Inr s'"
    and "current_group s \<noteq> Some g"
    and "\<forall>l \<in> set ls. opens_group l \<noteq> Some g"
  shows "current_group s' \<noteq> Some g \<and> map_of (groups s') g = map_of (groups s) g"
  using assms
proof (induction ls arbitrary: s)
  case Nil
  then show ?case by simp
next
  case (Cons l ls)
  from Cons.prems(1) obtain s1 where s1: "process_line pm True pf l s = Inr s1"
    and rest: "second_pass pm True pf ls s1 = Inr s'"
    by (auto split: sum.splits)
  from Cons.prems(3) have og: "opens_group l \<noteq> Some g" and ogs: "\<forall>l \<in> set ls. opens_group l \<noteq> Some g"
    by simp_all
  from process_line_current_group [OF s1] og Cons.prems(2) have cg: "current_group s1 \<noteq> Some g"
    by (auto split: option.splits)
  have op: "open_group True s \<noteq> Some g"
    using Cons.prems(2) by (auto simp: open_group_def split: option.splits if_splits)
  have "map_of (groups s1) g = map_of (groups s) g"
    unfolding process_line_groups [OF s1] using og op
    by (auto simp: update_conv' split: option.splits)
  with Cons.IH [OF rest cg ogs] show ?case by simp
qed

lemma second_pass_behind_label:
  assumes "second_pass pm True pf post s = Inr s'"
    and "current_group s = Some g" and "g \<noteq> []" and "map_of (groups s) g = Some []"
    and "\<forall>l \<in> set post. opens_group l \<noteq> Some g"
  shows "map_of (groups s') g = Some (members_behind post)"
proof -
  define xs where "xs = takeWhile (\<lambda>l. opens_group l = None) post"
  define ys where "ys = dropWhile (\<lambda>l. opens_group l = None) post"
  have post: "post = xs @ ys" by (simp add: xs_def ys_def)
  from assms(1) obtain s1 where s1: "second_pass pm True pf xs s = Inr s1"
    and s2: "second_pass pm True pf ys s1 = Inr s'"
    unfolding post by (auto simp: second_pass_append split: sum.splits)
  have "\<forall>l \<in> set xs. opens_group l = None"
    unfolding xs_def by (auto dest: set_takeWhileD)
  from second_pass_under_group [OF s1 assms(2) assms(3) assms(4) this]
  have a: "current_group s1 = Some g" "map_of (groups s1) g = Some (members_behind post)"
    by (simp_all add: members_behind_def xs_def)
  show ?thesis
  proof (cases ys)
    case Nil
    with s2 a show ?thesis by simp
  next
    case (Cons l ls)
    then have "l \<in> set post" "ls = tl ys" by (simp_all add: post)
    have "\<not> opens_group l = None"
      using Cons hd_dropWhile [of "\<lambda>l. opens_group l = None" post] by (simp add: ys_def)
    then obtain h where h: "opens_group l = Some h" by auto
    from assms(5) \<open>l \<in> set post\<close> h have hg: "h \<noteq> g" by auto
    from s2 Cons obtain s3 where s3: "process_line pm True pf l s1 = Inr s3"
      and s4: "second_pass pm True pf ls s3 = Inr s'"
      by (auto split: sum.splits)
    from process_line_current_group [OF s3] h hg have c3: "current_group s3 \<noteq> Some g" by simp
    from opens_group_comment [OF h] process_line_groups [OF s3] h
    have "groups s3 = AList.update h [] (groups s1)" by simp
    with hg have m3: "map_of (groups s3) g = map_of (groups s1) g" by (simp add: update_conv')
    have "\<forall>k \<in> set ls. opens_group k \<noteq> Some g"
      using assms(5) Cons post by auto
    from second_pass_other_group [OF s4 c3 this] m3 a show ?thesis by simp
  qed
qed

lemma process_line_distinct_groups:
  assumes "process_line pm pg pf l s = Inr s'" and "distinct (map fst (groups s))"
  shows "distinct (map fst (groups s'))"
  unfolding process_line_groups [OF assms(1)] using assms(2)
  by (auto simp: distinct_update split: option.splits)

lemma second_pass_distinct_groups:
  assumes "second_pass pm pg pf ls initial_state = Inr st"
  shows "distinct (map fst (groups st))"
proof (rule second_pass_invariant [OF assms, where P = "\<lambda>s. distinct (map fst (groups s))"])
  show "distinct (map fst (groups initial_state))" by (simp add: initial_state_def)
next
  fix l s s'
  assume "distinct (map fst (groups s))" and "process_line pm pg pf l s = Inr s'"
  then show "distinct (map fst (groups s'))" by (rule process_line_distinct_groups [rotated])
qed

lemma distinct_keys_split:
  assumes "distinct (map fst al)" and "map_of al k = Some v"
  shows "\<exists>xs ys. al = xs @ (k, v) # ys \<and> k \<notin> fst ` set xs \<and> k \<notin> fst ` set ys"
proof -
  from assms(2) have "(k, v) \<in> set al" by (rule map_of_SomeD)
  then obtain xs ys where al: "al = xs @ (k, v) # ys" by (auto dest: split_list)
  with assms(1) have "k \<notin> fst ` set xs \<and> k \<notin> fst ` set ys" by auto
  with al show ?thesis by blast
qed

lemma body_lines_split:
  assumes "groups st = xs @ gm # ys"
  shows "\<exists>rest. body_lines True pf ad st
           = concat (map (group_section pf st) xs) @ group_section pf st gm
             @ concat (map (group_section pf st) ys) @ rest"
  using assms by (simp add: body_lines_def)

lemma group_section_members:
  assumes "set ms \<subseteq> domains st"
  shows "group_section pf st (g, ms)
         = (if ms = [] then [] else (''#['' @ g @ '']'') # map (render pf st) (sort ms) @ [[]])"
proof -
  from assms have "filter (\<lambda>d. d \<in> domains st) ms = ms" by (auto simp: filter_id_conv)
  then show ?thesis by (simp add: group_section_def Let_def)
qed

subsection \<open>Sums over pairs of categories\<close>

lemma two_subsets_insert:
  assumes "x \<notin> C"
  shows "{P. P \<subseteq> insert x C \<and> card P = 2} = {P. P \<subseteq> C \<and> card P = 2} \<union> (\<lambda>b. {x, b}) ` C"
proof (intro set_eqI iffI)
  fix P assume "P \<in> {P. P \<subseteq> insert x C \<and> card P = 2}"
  then have sub: "P \<subseteq> insert x C" and c: "card P = 2" by auto
  show "P \<in> {P. P \<subseteq> C \<and> card P = 2} \<union> (\<lambda>b. {x, b}) ` C"
  proof (cases "x \<in> P")
    case False
    with sub c show ?thesis by auto
  next
    case True
    from c obtain a b where ab: "P = {a, b}" "a \<noteq> b" by (auto simp: card_2_iff)
    with True sub have "\<exists>b' \<in> C. P = {x, b'}" by auto
    then show ?thesis by auto
  qed
next
  fix P assume "P \<in> {P. P \<subseteq> C \<and> card P = 2} \<union> (\<lambda>b. {x, b}) ` C"
  then show "P \<in> {P. P \<subseteq> insert x C \<and> card P = 2}"
    using assms by (auto simp: card_2_iff)
qed

lemma ordered_pairs_twice:
  fixes f :: "'a set \<Rightarrow> nat"
  assumes "finite C"
  shows "(\<Sum>a \<in> C. \<Sum>b \<in> C. if a \<noteq> b then f {a, b} else 0) = 2 * (\<Sum>P \<in> {P. P \<subseteq> C \<and> card P = 2}. f P)"
  using assms
proof (induction C)
  case empty
  show ?case by simp
next
  case (insert x C)
  have fin: "finite {P. P \<subseteq> C \<and> card P = 2}" using insert.hyps(1) by simp
  have disj: "{P. P \<subseteq> C \<and> card P = 2} \<inter> (\<lambda>b. {x, b}) ` C = {}"
    using insert.hyps(2) by auto
  have inj: "inj_on (\<lambda>b. {x, b}) C"
    by (auto simp: inj_on_def doubleton_eq_iff)
  have new: "(\<Sum>P \<in> {P. P \<subseteq> insert x C \<and> card P = 2}. f P)
             = (\<Sum>P \<in> {P. P \<subseteq> C \<and> card P = 2}. f P) + (\<Sum>b \<in> C. f {x, b})"
    unfolding two_subsets_insert [OF insert.hyps(2)]
    using fin insert.hyps(1) disj inj
    by (simp add: sum.union_disjoint sum.reindex)
  have row: "(\<Sum>b \<in> insert x C. if x \<noteq> b then f {x, b} else 0) = (\<Sum>b \<in> C. f {x, b})"
    using insert.hyps by (auto intro: sum.cong)
  have col: "(\<Sum>b \<in> insert x C. if a \<noteq> b then f {a, b} else 0)
             = f {x, a} + (\<Sum>b \<in> C. if a \<noteq> b then f {a, b} else 0)" if "a \<in> C" for a
    using insert.hyps that by (auto simp: insert_commute)
  have rest: "(\<Sum>a \<in> C. \<Sum>b \<in> insert x C. if a \<noteq> b then f {a, b} else 0)
              = (\<Sum>a \<in> C. f {x, a} + (\<Sum>b \<in> C. if a \<noteq> b then f {a, b} else 0))"
    by (rule sum.cong [OF refl]) (rule col)
  have "(\<Sum>a \<in> insert x C. \<Sum>b \<in> insert x C. if a \<noteq> b then f {a, b} else 0)
        = (\<Sum>b \<in> insert x C. if x \<noteq> b then f {x, b} else 0)
          + (\<Sum>a \<in> C. \<Sum>b \<in> insert x C. if a \<noteq> b then f {a, b} else 0)"
    by (rule sum.insert [OF insert.hyps])
  also have "\<dots> = (\<Sum>b \<in> C. f {x, b}) + (\<Sum>a \<in> C. f {x, a} + (\<Sum>b \<in> C. if a \<noteq> b then f {a, b} else 0))"
    by (simp only: row rest)
  also have "\<dots> = 2 * (\<Sum>b \<in> C. f {x, b}) + (\<Sum>a \<in> C. \<Sum>b \<in> C. if a \<noteq> b then f {a, b} else 0)"
    by (simp add: sum.distrib)
  also have "\<dots> = 2 * (\<Sum>P \<in> {P. P \<subseteq> insert x C \<and> card P = 2}. f P)"
    by (simp add: insert.IH new)
  finally show ?case .
qed

lemma foldl_plus: "foldl (\<lambda>n x. n + f x) (a::nat) xs = a + sum_list (map f xs)"
  by (induction xs arbitrary: a) simp_all

lemma duplicate_sum_sum_list:
  "duplicate_sum cd =
     sum_list (map (\<lambda>x. sum_list (map (\<lambda>y. if fst x \<noteq> fst y then card (snd x \<inter> snd y) else 0) cd)) cd)"
proof -
  have inner: "foldl (\<lambda>n (c2, d2). if c1 \<noteq> c2 then n + card (d1 \<inter> d2) else n) n cd
               = n + sum_list (map (\<lambda>y. if c1 \<noteq> fst y then card (d1 \<inter> snd y) else 0) cd)"
    for c1 d1 n
  proof -
    have "(\<lambda>n (c2, d2). if c1 \<noteq> c2 then n + card (d1 \<inter> d2) else n)
          = (\<lambda>n y. n + (if c1 \<noteq> fst y then card (d1 \<inter> snd y) else 0))"
      by (auto simp: fun_eq_iff)
    then show ?thesis by (simp only: foldl_plus)
  qed
  have "(\<lambda>n (c1, d1). foldl (\<lambda>n (c2, d2). if c1 \<noteq> c2 then n + card (d1 \<inter> d2) else n) n cd)
        = (\<lambda>n x. n + sum_list (map (\<lambda>y. if fst x \<noteq> fst y then card (snd x \<inter> snd y) else 0) cd))"
    by (auto simp: fun_eq_iff inner cong: if_cong)
  then show ?thesis
    unfolding duplicate_sum_def by (simp only: foldl_plus)
qed

lemma per_category_set_Cons:
  "per_category_set (e # stats) c =
     (if fst (snd e) = c then snd (snd e) \<union> per_category_set stats c else per_category_set stats c)"
  by (simp add: per_category_set_def)

lemma per_category_set_Nil [simp]: "per_category_set [] c = {}"
  by (simp add: per_category_set_def)

lemma finite_per_category_set:
  "\<forall>e \<in> set stats. finite (snd (snd e)) \<Longrightarrow> finite (per_category_set stats c)"
  by (induction stats) (auto simp: per_category_set_Cons)

lemma collect_domains_result:
  assumes "\<forall>e \<in> set stats. fst (snd e) \<in> fst ` set cd0"
  shows "\<exists>alld cd. collect_domains stats (all0, cd0) = Inr (alld, cd)
           \<and> alld = all0 \<union> \<Union> (set (map (\<lambda>e. snd (snd e)) stats))
           \<and> map fst cd = map fst cd0
           \<and> (\<forall>c. map_of cd c = map_option (\<lambda>ds. ds \<union> per_category_set stats c) (map_of cd0 c))"
  using assms
proof (induction stats arbitrary: all0 cd0)
  case Nil
  show ?case by (simp add: option.map_ident)
next
  case (Cons e stats)
  obtain n c ds where e: "e = (n, c, ds)" by (cases e) auto
  from Cons.prems e have cin: "c \<in> fst ` set cd0" by simp
  then obtain old where old: "map_of cd0 c = Some old"
    by (cases "map_of cd0 c") (auto simp: map_of_eq_None_iff)
  let ?cd1 = "AList.update c (old \<union> ds) cd0"
  from cin have keys: "map fst ?cd1 = map fst cd0" by (simp add: update_keys)
  then have "fst ` set ?cd1 = fst ` set cd0" by (metis list.set_map)
  with Cons.prems have "\<forall>e \<in> set stats. fst (snd e) \<in> fst ` set ?cd1" by simp
  from Cons.IH [OF this, of "all0 \<union> ds"] obtain alld cd
    where r: "collect_domains stats (all0 \<union> ds, ?cd1) = Inr (alld, cd)"
      and a: "alld = (all0 \<union> ds) \<union> \<Union> (set (map (\<lambda>e. snd (snd e)) stats))"
      and k: "map fst cd = map fst ?cd1"
      and m: "\<forall>c'. map_of cd c' = map_option (\<lambda>x. x \<union> per_category_set stats c') (map_of ?cd1 c')"
    by blast
  have "collect_domains (e # stats) (all0, cd0) = Inr (alld, cd)"
    using e old r by simp
  moreover have "alld = all0 \<union> \<Union> (set (map (\<lambda>e. snd (snd e)) (e # stats)))"
    using a e by auto
  moreover have "map fst cd = map fst cd0" using k keys by simp
  moreover have "map_of cd c' = map_option (\<lambda>x. x \<union> per_category_set (e # stats) c') (map_of cd0 c')" for c'
  proof (cases "c' = c")
    case True
    with m old e show ?thesis
      by (simp add: update_conv' per_category_set_Cons Un_assoc)
  next
    case False
    with m e show ?thesis
      by (simp add: update_conv' per_category_set_Cons)
  qed
  ultimately show ?case by blast
qed

lemma alist_of_distinct_keys:
  "distinct (map fst al) \<Longrightarrow> al = map (\<lambda>k. (k, the (map_of al k))) (map fst al)"
proof (induction al)
  case Nil
  show ?case by simp
next
  case (Cons x al)
  then have d: "distinct (map fst al)" and nx: "fst x \<notin> fst ` set al" by auto
  have "map_of (x # al) k = map_of al k" if "k \<in> set (map fst al)" for k
    using that nx by (cases x) auto
  then have "map (\<lambda>k. (k, the (map_of (x # al) k))) (map fst al) = map (\<lambda>k. (k, the (map_of al k))) (map fst al)"
    by (intro map_cong refl) simp
  with Cons.IH [OF d] show ?case by simp
qed

lemma map_of_empty_categories:
  "map_of (map (\<lambda>category. (category, {})) cats) c = (if c \<in> set cats then Some {} else None)"
  by (induction cats) auto

lemma all_domains_by_category:
  assumes "\<forall>e \<in> set stats. fst (snd e) \<in> set cats"
  shows "\<Union> (set (map (\<lambda>e. snd (snd e)) stats)) = (\<Union>c \<in> set cats. per_category_set stats c)"
  using assms
proof (induction stats)
  case Nil
  show ?case by simp
next
  case (Cons e stats)
  then have IH: "\<Union> (set (map (\<lambda>e. snd (snd e)) stats)) = (\<Union>c \<in> set cats. per_category_set stats c)"
    and c: "fst (snd e) \<in> set cats" by simp_all
  have "(\<Union>c \<in> set cats. per_category_set (e # stats) c)
        = snd (snd e) \<union> (\<Union>c \<in> set cats. per_category_set stats c)"
    using c by (auto simp: per_category_set_Cons split: if_splits)
  with IH show ?case by simp
qed

lemma duplicate_sum_by_pairs:
  assumes "distinct cats"
  shows "duplicate_sum (map (\<lambda>c. (c, S c)) cats)
         = 2 * (\<Sum>P \<in> {P. P \<subseteq> set cats \<and> card P = 2}. card (\<Inter>c \<in> P. S c))"
proof -
  have "duplicate_sum (map (\<lambda>c. (c, S c)) cats)
        = (\<Sum>a \<leftarrow> cats. \<Sum>b \<leftarrow> cats. if a \<noteq> b then card (S a \<inter> S b) else 0)"
    by (simp add: duplicate_sum_sum_list comp_def cong: if_cong)
  also have "\<dots> = (\<Sum>a \<in> set cats. \<Sum>b \<in> set cats. if a \<noteq> b then card (S a \<inter> S b) else 0)"
    using assms by (simp add: sum_list_distinct_conv_sum_set)
  also have "\<dots> = (\<Sum>a \<in> set cats. \<Sum>b \<in> set cats. if a \<noteq> b then card (\<Inter>c \<in> {a, b}. S c) else 0)"
    by (simp cong: if_cong)
  also have "\<dots> = 2 * (\<Sum>P \<in> {P. P \<subseteq> set cats \<and> card P = 2}. card (\<Inter>c \<in> P. S c))"
    by (rule ordered_pairs_twice) simp
  finally show ?thesis .
qed

lemma card_as_indicator_sum:
  assumes "finite U" and "A \<subseteq> U"
  shows "card A = (\<Sum>d \<in> U. if d \<in> A then 1 else 0)"
proof -
  from assms(2) have "U \<inter> A = A" by blast
  with assms(1) show ?thesis by (simp add: sum.If_cases)
qed

lemma pair_overlap_by_domain:
  assumes "finite C" and "finite U" and "\<forall>c \<in> C. S c \<subseteq> U"
  shows "(\<Sum>P \<in> {P. P \<subseteq> C \<and> card P = 2}. card (\<Inter>c \<in> P. S c))
         = (\<Sum>d \<in> U. card {c \<in> C. d \<in> S c} choose 2)"
proof -
  let ?T = "{P. P \<subseteq> C \<and> card P = 2}"
  have finT: "finite ?T" using assms(1) by simp
  have "card (\<Inter>c \<in> P. S c) = (\<Sum>d \<in> U. if d \<in> (\<Inter>c \<in> P. S c) then 1 else 0)" if "P \<in> ?T" for P
  proof -
    from that obtain a where "a \<in> P" by (auto simp: card_2_iff)
    with that assms(3) have sub: "(\<Inter>c \<in> P. S c) \<subseteq> U" by blast
    show ?thesis by (rule card_as_indicator_sum [OF assms(2) sub])
  qed
  then have "(\<Sum>P \<in> ?T. card (\<Inter>c \<in> P. S c))
             = (\<Sum>P \<in> ?T. \<Sum>d \<in> U. if d \<in> (\<Inter>c \<in> P. S c) then 1 else 0)"
    by (intro sum.cong refl)
  also have "\<dots> = (\<Sum>d \<in> U. \<Sum>P \<in> ?T. if d \<in> (\<Inter>c \<in> P. S c) then 1 else 0)"
    by (rule sum.swap)
  also have "\<dots> = (\<Sum>d \<in> U. card {c \<in> C. d \<in> S c} choose 2)"
  proof (intro sum.cong refl)
    fix d
    have "(\<Sum>P \<in> ?T. if d \<in> (\<Inter>c \<in> P. S c) then 1 else 0) = card (?T \<inter> {P. d \<in> (\<Inter>c \<in> P. S c)})"
      using finT by (simp add: sum.If_cases)
    also have "?T \<inter> {P. d \<in> (\<Inter>c \<in> P. S c)} = {P. P \<subseteq> {c \<in> C. d \<in> S c} \<and> card P = 2}"
      by auto
    also have "card \<dots> = card {c \<in> C. d \<in> S c} choose 2"
      using assms(1) by (simp add: n_subsets)
    finally show "(\<Sum>P \<in> ?T. if d \<in> (\<Inter>c \<in> P. S c) then 1 else 0) = card {c \<in> C. d \<in> S c} choose 2" .
  qed
  finally show ?thesis .
qed

subsection \<open>The remembered line of a repeated domain\<close>

text \<open>
  Claim C3, as the claim states it, fails: with \<open>preserve_format\<close> in effect and the
  domain \<open>a.com\<close> on two different lines, the line emitted for it is the second one,
  not the first.
\<close>

theorem first_format_line_counterexample:
  "optimize_blocklist id \<lparr>dt_year = 2024, dt_month = 3, dt_day = 7, dt_hour = 12, dt_minute = 0, dt_second = 59\<rparr>
     (Str (join_lines [''0.0.0.0 a.com'', ''0.0.0.0  a.com''])) False False True
   = (join_lines [''# Pi-hole optimized blocklist'', ''# Last updated: 2024-03-07 12:00:59'',
                  ''# Total domains: 1'', [], ''0.0.0.0  a.com''], {''a.com''})"
  by code_simp

text \<open>
  Claim C3, amended. When \<open>preserve_format\<close> is in effect and the same valid domain is
  extracted from two or more lines of the input, the line remembered for the domain, and
  emitted for it in the serialisation, is the line of its last occurrence: each later
  occurrence replaces the line remembered before.
\<close>

theorem last_format_line_wins:
  assumes "second_pass pm pg True (pre @ l # post) st0 = Inr st"
    and "line_domain l = Some d"
    and "\<forall>k \<in> set post. line_domain k \<noteq> Some d"
  shows "domain_formats st d = Some (strip l) \<and> d \<in> domains st
         \<and> render True st d = strip l \<and> render_plain True ab st d = strip l"
proof -
  from assms(1) obtain s1 s2 where s1: "second_pass pm pg True pre st0 = Inr s1"
    and s2: "process_line pm pg True l s1 = Inr s2"
    and st: "second_pass pm pg True post s2 = Inr st"
    by (auto simp: second_pass_append split: sum.splits)
  from process_line_formats [OF s2] assms(2) have f2: "domain_formats s2 d = Some (strip l)"
    by simp
  from process_line_domains [OF s2] assms(2) have d2: "d \<in> domains s2"
    by simp
  from second_pass_formats_unchanged [OF st assms(3)] f2
  have f: "domain_formats st d = Some (strip l)" by simp
  moreover from second_pass_domains_mono [OF st] d2 have "d \<in> domains st" by blast
  ultimately show ?thesis by (simp add: render_def render_plain_def)
qed

theorem last_format_line_wins_witness:
  "\<exists>st. second_pass False False True ([''0.0.0.0 a.com''] @ ''||a.com^'' # [''b.org'']) initial_state = Inr st
        \<and> domain_formats st ''a.com'' = Some ''||a.com^'' \<and> ''a.com'' \<in> domains st"
proof -
  from second_pass_total obtain st
    where st: "second_pass False False True ([''0.0.0.0 a.com''] @ ''||a.com^'' # [''b.org'']) initial_state = Inr st"
    by blast
  have h2: "line_domain ''||a.com^'' = Some ''a.com''"
    by code_simp
  have h3: "\<forall>k \<in> set [''b.org'']. line_domain k \<noteq> Some ''a.com''"
    by code_simp
  have h4: "strip ''||a.com^'' = ''||a.com^''"
    by code_simp
  from last_format_line_wins [OF st h2 h3] h4 st show ?thesis by auto
qed

subsection \<open>The length limit and the wildcard prefix\<close>

text \<open>
  Claim C4, as the claim states it, fails: a token of 255 characters made of \<open>*.\<close> and a
  valid domain of 253 characters is rejected, although the domain alone is accepted.
\<close>

theorem wildcard_length_counterexample:
  "length (''*.'' @ replicate 63 (CHR ''a'') @ ''.'' @ replicate 63 (CHR ''b'') @ ''.''
             @ replicate 63 (CHR ''c'') @ ''.'' @ replicate 61 (CHR ''d'')) = 255
   \<and> length (replicate 63 (CHR ''a'') @ ''.'' @ replicate 63 (CHR ''b'') @ ''.''
             @ replicate 63 (CHR ''c'') @ ''.'' @ replicate 61 (CHR ''d'')) = 253
   \<and> is_valid_domain (replicate 63 (CHR ''a'') @ ''.'' @ replicate 63 (CHR ''b'') @ ''.''
             @ replicate 63 (CHR ''c'') @ ''.'' @ replicate 61 (CHR ''d''))
   \<and> \<not> is_valid_domain (''*.'' @ replicate 63 (CHR ''a'') @ ''.'' @ replicate 63 (CHR ''b'') @ ''.''
             @ replicate 63 (CHR ''c'') @ ''.'' @ replicate 61 (CHR ''d''))"
  by code_simp

text \<open>
  Claim C4, amended. For every token that starts with \<open>*.\<close>, \<open>is_valid_domain\<close>
  applies the limit of 253 characters to the whole token, the prefix \<open>*.\<close> included: the
  token is accepted exactly when what follows the prefix has at most 251 characters, the
  token does not end in \<open>.local\<close>, and what follows the prefix matches the domain
  pattern.
\<close>

theorem wildcard_length_limit:
  "is_valid_domain (''*.'' @ r) =
     (length r \<le> 251 \<and> \<not> endswith ''.local'' (''*.'' @ r) \<and> re_match DOMAIN_PATTERN r \<noteq> None)"
proof -
  have s: "startswith ''*.'' (CHR ''*'' # CHR ''.'' # r)" by (simp add: startswith_def)
  have l: "(253 < Suc (Suc (length r))) = (\<not> length r \<le> 251)" by auto
  show ?thesis
    by (simp add: is_valid_domain_def Let_def s l)
qed

theorem wildcard_length_limit_witness:
  "is_valid_domain (''*.'' @ ''ads.example.com'')"
proof -
  have "length ''ads.example.com'' \<le> 251 \<and> \<not> endswith ''.local'' (''*.'' @ ''ads.example.com'')
        \<and> re_match DOMAIN_PATTERN ''ads.example.com'' \<noteq> None"
    by code_simp
  then show ?thesis unfolding wildcard_length_limit .
qed

subsection \<open>The shape of a valid domain\<close>

text \<open>
  Claim C5, as the claim states it, fails: the token \<open>x.a\<close>, two labels of the shape
  that the claim gives, is rejected, and so is the single label \<open>com\<close>.
\<close>

theorem single_character_tld_counterexample:
  "spec_domain_shape ''x.a'' \<and> \<not> is_valid_domain ''x.a''
   \<and> spec_domain_shape ''com'' \<and> \<not> is_valid_domain ''com''"
  by code_simp

text \<open>
  Claim C5, amended. \<open>is_valid_domain\<close> accepts exactly the tokens that are not empty,
  are not \<open>localhost\<close>, do not end in \<open>.local\<close>, have at most 253 characters, and
  that, without the prefix \<open>*.\<close> if they have it, consist of two or more labels
  separated by dots, where every label has 1 to 63 characters, the first and the last
  alphanumeric and all of them alphanumeric or a hyphen, and the last label has at
  least two characters. One line feed at the end of the token does not count.
\<close>

theorem domain_pattern_shape:
  "is_valid_domain tok =
     (tok \<noteq> [] \<and> tok \<noteq> ''localhost'' \<and> \<not> endswith ''.local'' tok \<and> length tok \<le> 253
      \<and> domain_shape (without_final_LF (without_wildcard tok)))"
  unfolding is_valid_domain_def Let_def re_match_DOMAIN_PATTERN_shape without_wildcard_def
  by auto

theorem domain_pattern_shape_witness:
  "is_valid_domain ''ads.example.com'' \<and> is_valid_domain ''*.example.co''
   \<and> \<not> is_valid_domain ''-ads.example.com''"
proof -
  have "domain_shape (without_final_LF (without_wildcard ''ads.example.com''))"
    "domain_shape (without_final_LF (without_wildcard ''*.example.co''))"
    "\<not> domain_shape (without_final_LF (without_wildcard ''-ads.example.com''))"
    by code_simp+
  moreover have "\<not> endswith ''.local'' ''ads.example.com''" "\<not> endswith ''.local'' ''*.example.co''"
    by code_simp+
  ultimately show ?thesis
    unfolding domain_pattern_shape by simp
qed

subsection \<open>The sample of the format detection\<close>

lemma foldl_count_line_total:
  "total_lines (foldl (\<lambda>k line. count_line line k) k0 ls)
   = total_lines k0 + length (filter (\<lambda>l. \<not> (l = [] \<or> startswith ''#'' l \<or> startswith ''!'' l)) (map strip ls))"
proof (induction ls arbitrary: k0)
  case Nil
  show ?case by simp
next
  case (Cons l ls)
  show ?case
    unfolding foldl_Cons Cons.IH by (simp add: count_line_def Let_def)
qed

lemma foldl_count_line_adblock:
  "adblock_count (foldl (\<lambda>k line. count_line line k) k0 ls)
   = adblock_count k0
     + length (adblock_lines (filter (\<lambda>l. \<not> (l = [] \<or> startswith ''#'' l \<or> startswith ''!'' l)) (map strip ls)))"
proof (induction ls arbitrary: k0)
  case Nil
  show ?case by (simp add: adblock_lines_def)
next
  case (Cons l ls)
  show ?case
    unfolding foldl_Cons Cons.IH by (simp add: count_line_def Let_def adblock_lines_def)
qed

lemma foldl_count_line_hosts:
  "host_count (foldl (\<lambda>k line. count_line line k) k0 ls)
   = host_count k0
     + length (hosts_lines (filter (\<lambda>l. \<not> (l = [] \<or> startswith ''#'' l \<or> startswith ''!'' l)) (map strip ls)))"
proof (induction ls arbitrary: k0)
  case Nil
  show ?case by (simp add: hosts_lines_def)
next
  case (Cons l ls)
  show ?case
    unfolding foldl_Cons Cons.IH by (simp add: count_line_def Let_def hosts_lines_def)
qed

lemma analyze_format_counts:
  "total_lines (analyze_format lines) = length (format_sample lines)"
  "adblock_count (analyze_format lines) = length (adblock_lines (format_sample lines))"
  "host_count (analyze_format lines) = length (hosts_lines (format_sample lines))"
  unfolding analyze_format_def format_sample_def
    foldl_count_line_total foldl_count_line_adblock foldl_count_line_hosts
  by simp_all

text \<open>
  Claim C6, as the claim states it, fails: after 200 comment lines the AdBlock-style lines
  that follow are not sampled, and the list is not classified as AdBlock-style; without
  the comment lines it is.
\<close>

theorem format_sample_counterexample:
  "primary_format (replicate 200 ''# comment'' @ [''||a.example.com^'', ''||b.example.com^'']) False = (False, False)
   \<and> primary_format [''||a.example.com^'', ''||b.example.com^''] False = (True, True)"
  by code_simp

text \<open>
  Claim C6, amended. The format detection samples the first 200 lines of the input: the
  sampled lines are those among the first 200 that are neither blank nor comments, so
  blank lines and comment lines use up the budget and no line behind the 200th is
  sampled. The list is AdBlock-style, with \<open>preserve_format\<close> set, exactly when the
  AdBlock-style lines are more than half of the sampled lines; otherwise
  \<open>preserve_format\<close> is set when the hosts-style lines are more than half of them; otherwise
  the list is not AdBlock-style and \<open>preserve_format\<close> stays as the caller passed it.
\<close>

theorem format_sample_majority:
  "primary_format lines pf =
     (if 2 * length (adblock_lines (format_sample lines)) > length (format_sample lines) then (True, True)
      else if 2 * length (hosts_lines (format_sample lines)) > length (format_sample lines) then (False, True)
      else (False, pf))"
proof -
  have a: "length (adblock_lines (format_sample lines)) \<le> length (format_sample lines)"
    by (simp add: adblock_lines_def)
  have h: "length (hosts_lines (format_sample lines)) \<le> length (format_sample lines)"
    by (simp add: hosts_lines_def)
  show ?thesis
  proof (cases "length (format_sample lines) = 0")
    case True
    with a h show ?thesis
      by (simp add: primary_format_def Let_def analyze_format_counts)
  next
    case False
    then show ?thesis
      by (simp add: primary_format_def Let_def analyze_format_counts)
  qed
qed

theorem format_sample_majority_witness:
  "primary_format (replicate 199 ''# comment'' @ [''||a.example.com^'', ''0.0.0.0 b.example.com'']) False
     = (True, True)
   \<and> primary_format (replicate 198 ''# comment'' @ [''0.0.0.0 b.example.com'', ''x y'', ''||a.example.com^'']) False
     = (False, False)"
proof -
  have "format_sample (replicate 199 ''# comment'' @ [''||a.example.com^'', ''0.0.0.0 b.example.com''])
        = [''||a.example.com^'']"
    by code_simp
  moreover have "adblock_lines [''||a.example.com^''] = [''||a.example.com^'']"
    by code_simp
  moreover have "format_sample (replicate 198 ''# comment'' @ [''0.0.0.0 b.example.com'', ''x y'', ''||a.example.com^''])
        = [''0.0.0.0 b.example.com'', ''x y'']"
    by code_simp
  moreover have "adblock_lines [''0.0.0.0 b.example.com'', ''x y''] = []"
    "hosts_lines [''0.0.0.0 b.example.com'', ''x y''] = [''0.0.0.0 b.example.com'']"
    by code_simp+
  ultimately show ?thesis
    unfolding format_sample_majority by simp
qed

subsection \<open>The exception handler of the normaliser\<close>

text \<open>
  Claim C7. Whenever a step inside the \<open>try\<close> block of \<open>optimize_blocklist\<close> raises,
  the function still returns: its text is the one-line placeholder
  \<open># Error processing blocklist\<close> and its domain set is empty. No exception reaches the
  caller.
\<close>

theorem optimize_blocklist_error_placeholder:
  assumes "optimize_body decode now c pm pg pf = Inl e"
  shows "optimize_blocklist decode now c pm pg pf = (''# Error processing blocklist'', {})
         \<and> splitlines (fst (optimize_blocklist decode now c pm pg pf)) = [''# Error processing blocklist'']"
proof -
  have r: "optimize_blocklist decode now c pm pg pf = (''# Error processing blocklist'', {})"
    using assms by (simp add: optimize_blocklist_def)
  have "splitlines ''# Error processing blocklist'' = [''# Error processing blocklist'']"
    by code_simp
  with r show ?thesis by simp
qed

theorem optimize_blocklist_error_placeholder_witness:
  "optimize_body id \<lparr>dt_year = 2024, dt_month = 3, dt_day = 7, dt_hour = 12, dt_minute = 0, dt_second = 59\<rparr>
     NonText True True False = Inl AttributeError
   \<and> optimize_blocklist id \<lparr>dt_year = 2024, dt_month = 3, dt_day = 7, dt_hour = 12, dt_minute = 0, dt_second = 59\<rparr>
       NonText True True False = (''# Error processing blocklist'', {})"
proof -
  have h: "optimize_body id \<lparr>dt_year = 2024, dt_month = 3, dt_day = 7, dt_hour = 12, dt_minute = 0, dt_second = 59\<rparr>
     NonText True True False = Inl AttributeError"
    by (simp add: optimize_body_def)
  from optimize_blocklist_error_placeholder [OF h] h show ?thesis by simp
qed

subsection \<open>A domain under several group labels\<close>

text \<open>
  Claim C8 says that a domain is a member of at most one group. The program, whose
  documentation announces the removal of duplicates, appends the domain to the current
  group at every line that yields it: on the input below the domain \<open>x.com\<close> becomes a
  member of the group \<open>a\<close> and of the group \<open>b\<close>, and the text written for the list
  holds its line twice under a total of one domain.
\<close>

theorem domain_listed_in_two_groups:
  "(case second_pass True True False [''#[a]'', ''x.com'', ''#[b]'', ''x.com''] initial_state of
      Inl e \<Rightarrow> [] | Inr st \<Rightarrow> groups st)
   = [(''a'', [''x.com'']), (''b'', [''x.com''])]
   \<and> optimize_blocklist id \<lparr>dt_year = 2024, dt_month = 3, dt_day = 7, dt_hour = 12, dt_minute = 0, dt_second = 59\<rparr>
       (Str (join_lines [''#[a]'', ''x.com'', ''#[b]'', ''x.com''])) True True False
     = (join_lines [''# Pi-hole optimized blocklist'', ''# Last updated: 2024-03-07 12:00:59'',
                    ''# Total domains: 1'', [],
                    ''#[a]'', ''0.0.0.0 x.com'', [],
                    ''#[b]'', ''0.0.0.0 x.com'', []], {''x.com''})"
  by code_simp

subsection \<open>Extracted tokens carry no comment character\<close>

text \<open>
  Claim C9. For every input line (a text without line feed, as \<open>splitlines\<close> produces
  them), a token returned by \<open>extract_domain_from_line\<close> contains neither \<open>#\<close> nor
  \<open>!\<close>: the inline comment, from the first of these characters to the end of the line,
  is removed before a pattern is tried.
\<close>

theorem extract_domain_no_comment_chars:
  assumes "extract_domain_from_line line = Some tok" and "LF \<notin> set line"
  shows "CHR ''#'' \<notin> set tok \<and> CHR ''!'' \<notin> set tok"
proof -
  from assms(2) set_strip [of line] have "LF \<notin> set (strip line)" by blast
  from no_comment_chars_after_sub [OF this]
  have "CHR ''#'' \<notin> set (strip (re_sub_empty INLINE_COMMENT (strip line)))
        \<and> CHR ''!'' \<notin> set (strip (re_sub_empty INLINE_COMMENT (strip line)))"
    using set_strip by blast
  with extract_domain_cases [OF assms(1)] show ?thesis by blast
qed

theorem extract_domain_no_comment_chars_witness:
  "extract_domain_from_line ''0.0.0.0 a.com # ads!'' = Some ''a.com''
   \<and> LF \<notin> set ''0.0.0.0 a.com # ads!''
   \<and> CHR ''#'' \<notin> set ''a.com'' \<and> CHR ''!'' \<notin> set ''a.com''"
proof -
  have h1: "extract_domain_from_line ''0.0.0.0 a.com # ads!'' = Some ''a.com''"
    by code_simp
  have h2: "LF \<notin> set ''0.0.0.0 a.com # ads!''"
    by simp
  from extract_domain_no_comment_chars [OF h1 h2] h1 h2 show ?thesis by simp
qed

subsection \<open>A group label that occurs again\<close>

text \<open>
  Claim C10. With \<open>preserve_grouping\<close> active, a group label whose name was seen before
  resets the member list of the group to the empty list: the members captured under an
  earlier occurrence are discarded. Behind the last occurrence of the label of a group
  with a non-empty name, the member list of the group holds the domains of the lines
  that follow this occurrence, up to the next group label, and nothing else; the group
  has one entry, and the section written for it in the body of the output is empty when
  there is no such domain, and otherwise the label, one line for each of these domains,
  in sorted order, and an empty line.
\<close>

theorem repeated_group_label_resets_members:
  assumes "opens_group hdr = Some g" and "g \<noteq> []"
    and "\<forall>l \<in> set post. opens_group l \<noteq> Some g"
  shows "\<exists>s1 st xs ys rest.
      second_pass pm True pf (pre @ [hdr]) initial_state = Inr s1 \<and> map_of (groups s1) g = Some []
    \<and> second_pass pm True pf (pre @ hdr # post) initial_state = Inr st
    \<and> groups st = xs @ (g, members_behind post) # ys \<and> g \<notin> fst ` set xs \<and> g \<notin> fst ` set ys
    \<and> set (members_behind post) \<subseteq> domains st
    \<and> group_section pf st (g, members_behind post)
        = (if members_behind post = [] then []
           else (''#['' @ g @ '']'') # map (render pf st) (sort (members_behind post)) @ [[]])
    \<and> body_lines True pf ad st
        = concat (map (group_section pf st) xs) @ group_section pf st (g, members_behind post)
          @ concat (map (group_section pf st) ys) @ rest"
proof -
  from second_pass_total obtain st
    where st: "second_pass pm True pf (pre @ hdr # post) initial_state = Inr st" by blast
  then obtain s0 s1 where s0: "second_pass pm True pf pre initial_state = Inr s0"
    and s1: "process_line pm True pf hdr s0 = Inr s1"
    and post: "second_pass pm True pf post s1 = Inr st"
    by (auto simp: second_pass_append split: sum.splits)
  from process_line_opens_group [OF assms(1) s1]
  have a: "current_group s1 = Some g" "map_of (groups s1) g = Some []" by simp_all
  from s0 s1 have p1: "second_pass pm True pf (pre @ [hdr]) initial_state = Inr s1"
    by (simp add: second_pass_append)
  from second_pass_behind_label [OF post a(1) assms(2) a(2) assms(3)]
  have m: "map_of (groups st) g = Some (members_behind post)" .
  from distinct_keys_split [OF second_pass_distinct_groups [OF st] m] obtain xs ys
    where g: "groups st = xs @ (g, members_behind post) # ys" "g \<notin> fst ` set xs" "g \<notin> fst ` set ys"
    by blast
  from second_pass_members [OF st] m have sub: "set (members_behind post) \<subseteq> domains st"
    by (blast dest: map_of_SomeD)
  from body_lines_split [OF g(1), of pf ad] obtain rest
    where b: "body_lines True pf ad st
        = concat (map (group_section pf st) xs) @ group_section pf st (g, members_behind post)
          @ concat (map (group_section pf st) ys) @ rest"
    by blast
  from p1 a(2) st g sub group_section_members [OF sub, of pf g] b show ?thesis by blast
qed

theorem repeated_group_label_resets_members_witness:
  "\<exists>st. second_pass False True False ([''#[a]'', ''x.com''] @ ''#[a]'' # [''y.com'', ''#[b]'', ''z.com'']) initial_state = Inr st
     \<and> map_of (groups st) ''a'' = Some [''y.com'']
     \<and> group_section False st (''a'', [''y.com'']) = [''#[a]'', ''0.0.0.0 y.com'', []]"
proof -
  have og: "opens_group ''#[a]'' = Some ''a''" by code_simp
  have ne: "''a'' \<noteq> []" by simp
  have "opens_group ''y.com'' \<noteq> Some ''a''" "opens_group ''#[b]'' \<noteq> Some ''a''"
    "opens_group ''z.com'' \<noteq> Some ''a''"
    by code_simp+
  then have last: "\<forall>l \<in> set [''y.com'', ''#[b]'', ''z.com'']. opens_group l \<noteq> Some ''a''" by simp
  have mb: "members_behind [''y.com'', ''#[b]'', ''z.com''] = [''y.com'']" by code_simp
  from repeated_group_label_resets_members [OF og ne last, of False False "[''#[a]'', ''x.com'']" False]
  obtain st xs ys where st: "second_pass False True False ([''#[a]'', ''x.com''] @ ''#[a]'' # [''y.com'', ''#[b]'', ''z.com'']) initial_state = Inr st"
    and g: "groups st = xs @ (''a'', [''y.com'']) # ys" "''a'' \<notin> fst ` set xs"
    and sec: "group_section False st (''a'', [''y.com''])
              = (''#['' @ ''a'' @ '']'') # map (render False st) (sort [''y.com'']) @ [[]]"
    unfolding mb by auto
  from g have "map_of (groups st) ''a'' = Some [''y.com'']"
    by (simp add: map_of_append map_add_def map_of_eq_None_iff [THEN iffD2] split: option.splits)
  moreover from sec have "group_section False st (''a'', [''y.com'']) = [''#[a]'', ''0.0.0.0 y.com'', []]"
    by (simp add: render_def)
  ultimately show ?thesis using st by blast
qed

subsection \<open>The aggregation of the production lists\<close>

text \<open>
  Claim C1. For every finite family of sources, each with a category among the known
  categories and a finite domain set, \<open>create_production_lists\<close> returns; the set of a
  category is the union of the domain sets of its sources; the global set is the union of
  the sets of all categories; the count of duplicates is the sum, over all unordered pairs
  of distinct categories, of the number of domains that both sets of the pair contain, so
  that a domain present in \<open>k\<close> categories counts \<open>k\<close> choose 2 times.
\<close>

theorem aggregation_overlap:
  assumes "distinct categories"
    and "\<forall>e \<in> set domain_stats. fst (snd e) \<in> set categories \<and> finite (snd (snd e))"
  shows "\<exists>r. create_production_lists categories domain_stats = Inr r
     \<and> category_domains r = map (\<lambda>c. (c, per_category_set domain_stats c)) categories
     \<and> all_domains r = (\<Union>c \<in> set categories. per_category_set domain_stats c)
     \<and> unique_domains r = card (all_domains r)
     \<and> duplicate_domains r
         = (\<Sum>P \<in> {P. P \<subseteq> set categories \<and> card P = 2}. card (\<Inter>c \<in> P. per_category_set domain_stats c))
     \<and> duplicate_domains r
         = (\<Sum>d \<in> all_domains r. card {c \<in> set categories. d \<in> per_category_set domain_stats c} choose 2)"
proof -
  let ?cd0 = "map (\<lambda>category. (category, {})) categories"
  let ?S = "per_category_set domain_stats"
  have keys0: "map fst ?cd0 = categories" by (simp add: comp_def)
  then have k0: "fst ` set ?cd0 = set categories" by (metis list.set_map)
  have "\<forall>e \<in> set domain_stats. fst (snd e) \<in> fst ` set ?cd0"
    unfolding k0 using assms(2) by blast
  from collect_domains_result [OF this, of "{}"] obtain alld cd
    where r: "collect_domains domain_stats ({}, ?cd0) = Inr (alld, cd)"
      and a: "alld = {} \<union> \<Union> (set (map (\<lambda>e. snd (snd e)) domain_stats))"
      and k: "map fst cd = map fst ?cd0"
      and m: "\<forall>c. map_of cd c = map_option (\<lambda>ds. ds \<union> ?S c) (map_of ?cd0 c)"
    by auto
  from k keys0 have keys: "map fst cd = categories" by simp
  have "the (map_of cd c) = ?S c" if "c \<in> set categories" for c
    using m that by (simp add: map_of_empty_categories)
  then have "map (\<lambda>k. (k, the (map_of cd k))) categories = map (\<lambda>c. (c, ?S c)) categories"
    by (intro map_cong) auto
  with alist_of_distinct_keys [of cd] keys assms(1) have cd: "cd = map (\<lambda>c. (c, ?S c)) categories"
    by simp
  from a assms(2) all_domains_by_category [of domain_stats categories]
  have alld: "alld = (\<Union>c \<in> set categories. ?S c)" by simp
  have fin: "finite alld"
    unfolding alld using assms(2) by (auto intro: finite_per_category_set)
  have dup: "duplicate_sum cd div 2
             = (\<Sum>P \<in> {P. P \<subseteq> set categories \<and> card P = 2}. card (\<Inter>c \<in> P. ?S c))"
    unfolding cd duplicate_sum_by_pairs [OF assms(1)] by simp
  have "\<forall>c \<in> set categories. ?S c \<subseteq> alld" unfolding alld by blast
  from pair_overlap_by_domain [OF _ fin this]
  have dup2: "(\<Sum>P \<in> {P. P \<subseteq> set categories \<and> card P = 2}. card (\<Inter>c \<in> P. ?S c))
              = (\<Sum>d \<in> alld. card {c \<in> set categories. d \<in> ?S c} choose 2)"
    by simp
  show ?thesis
    using r cd alld dup dup2 by (simp add: create_production_lists_def)
qed

theorem aggregation_overlap_witness:
  "distinct [''A'', ''B'']
   \<and> (\<exists>r. create_production_lists [''A'', ''B'']
             [(''list1'', ''A'', {''x.com'', ''y.com''}), (''list2'', ''B'', {''y.com'', ''z.com''})] = Inr r
          \<and> all_domains r = {''x.com'', ''y.com'', ''z.com''} \<and> unique_domains r = 3
          \<and> duplicate_domains r = 1)"
proof -
  have h1: "distinct [''A'', ''B'']" by simp
  have h2: "\<forall>e \<in> set [(''list1'', ''A'', {''x.com'', ''y.com''}), (''list2'', ''B'', {''y.com'', ''z.com''})].
              fst (snd e) \<in> set [''A'', ''B''] \<and> finite (snd (snd e))"
    by simp
  from aggregation_overlap [OF h1 h2] obtain r
    where r: "create_production_lists [''A'', ''B'']
             [(''list1'', ''A'', {''x.com'', ''y.com''}), (''list2'', ''B'', {''y.com'', ''z.com''})] = Inr r"
    by blast
  have e: "create_production_lists [''A'', ''B'']
             [(''list1'', ''A'', {''x.com'', ''y.com''}), (''list2'', ''B'', {''y.com'', ''z.com''})]
           = Inr \<lparr>all_domains = {''x.com'', ''y.com'', ''z.com''},
                  category_domains = [(''A'', {''x.com'', ''y.com''}), (''B'', {''y.com'', ''z.com''})],
                  duplicate_domains = 1, unique_domains = 3\<rparr>"
    by code_simp
  with r h1 show ?thesis by auto
qed

end
